theory Spec2Isabelle
  imports Main "HOL-Library.Sublist" "HOL-Library.Char_ord"
begin

section \<open>Bytes, strings and the byte source\<close>

text \<open>
  A \<open>Uint8Array\<close> or \<open>Buffer\<close> is a list of bytes. Isabelle's \<open>char\<close> is exactly one
  byte, so a byte is a \<open>char\<close> and \<open>toString("latin1")\<close>, which maps the byte \<open>b\<close> to the
  code unit \<open>b\<close>, is the identity. Every string the scanner builds itself comes from
  such a decoding, so \<open>string\<close> represents it exactly. \<open>encoder.encode("%PDF-")\<close> is the
  ASCII literal \<open>''%PDF-''\<close>.
\<close>

type_synonym byte = char

datatype format = Deflate | DeflateRaw

text \<open>
  What a call can raise: the tokenizer's end-of-stream error, the two \<open>Error\<close>s the
  sources construct themselves, a failed \<open>DecompressionStream\<close> and an error of the sax
  parser (with its message).
\<close>

datatype error =
    EndOfStreamError
  | SkipEOF
  | ReadBytesNegative
  | InflateError format
  | SaxError string

text \<open>
  The tokenizer (strtok3's \<open>ITokenizer\<close>) is the byte source of section 6 of the
  specification: a peek of up to \<open>length\<close> bytes that does not advance, a read that
  advances, and an observable position. With \<open>mayBeLess\<close> a short answer is tolerated;
  without it a short answer raises \<open>EndOfStreamError\<close>.
\<close>

record tokenizer =
  data :: "byte list"
  position :: nat

definition remaining :: "tokenizer \<Rightarrow> byte list" where
  "remaining t = drop (position t) (data t)"

definition peekBuffer :: "tokenizer \<Rightarrow> nat \<Rightarrow> bool \<Rightarrow> error + byte list" where
  "peekBuffer t len mayBeLess =
     (let bs = take len (remaining t)
      in if \<not> mayBeLess \<and> length bs < len then Inl EndOfStreamError else Inr bs)"

definition readBuffer :: "tokenizer \<Rightarrow> nat \<Rightarrow> bool \<Rightarrow> error + (byte list \<times> tokenizer)" where
  "readBuffer t len mayBeLess =
     (case peekBuffer t len mayBeLess of
        Inl e \<Rightarrow> Inl e
      | Inr bs \<Rightarrow> Inr (bs, t\<lparr>position := position t + length bs\<rparr>))"

section \<open>Header sniffer (src/lib/index.ts)\<close>

text \<open>
  \<open>indexOfBytes\<close>: the inner loop compares \<open>hay[i + j]\<close> with \<open>needle[j]\<close> and leaves to
  the next \<open>i\<close> at the first difference (\<open>continue outer\<close>); a read past the end of \<open>hay\<close>
  is \<open>undefined\<close> in JavaScript and differs from every byte. The outer loop runs while
  \<open>i <= hay.length - needle.length\<close>. The result \<open>-1\<close> is \<open>None\<close>.
\<close>

function indexOfBytes_inner :: "byte list \<Rightarrow> byte list \<Rightarrow> nat \<Rightarrow> nat \<Rightarrow> bool" where
  "indexOfBytes_inner hay needle i j =
     (if j < length needle then
        (if length hay \<le> i + j \<or> hay ! (i + j) \<noteq> needle ! j then False
         else indexOfBytes_inner hay needle i (j + 1))
      else True)"
  by pat_completeness auto
termination
  by (relation "measure (\<lambda>(hay, needle, i, j). length needle - j)") auto

declare indexOfBytes_inner.simps [simp del]

function indexOfBytes_outer :: "byte list \<Rightarrow> byte list \<Rightarrow> nat \<Rightarrow> nat option" where
  "indexOfBytes_outer hay needle i =
     (if i + length needle \<le> length hay then
        (if indexOfBytes_inner hay needle i 0 then Some i
         else indexOfBytes_outer hay needle (i + 1))
      else None)"
  by pat_completeness auto
termination
  by (relation "measure (\<lambda>(hay, needle, i). Suc (length hay) - i)") auto

declare indexOfBytes_outer.simps [simp del]

definition indexOfBytes :: "byte list \<Rightarrow> byte list \<Rightarrow> nat option" where
  "indexOfBytes hay needle = (if length needle = 0 then Some 0 else indexOfBytes_outer hay needle 0)"

record pdf_header =
  isPdf :: bool
  headerOffset :: int

definition peekPdfHeader :: "tokenizer \<Rightarrow> pdf_header" where
  "peekPdfHeader t =
     (case peekBuffer t 1024 True of
        Inl e \<Rightarrow> \<lparr>isPdf = False, headerOffset = - 1\<rparr>
      | Inr hay \<Rightarrow>
          if length hay = 0 then \<lparr>isPdf = False, headerOffset = - 1\<rparr>
          else (case indexOfBytes hay ''%PDF-'' of
                  None \<Rightarrow> \<lparr>isPdf = False, headerOffset = - 1\<rparr>
                | Some idx \<Rightarrow> \<lparr>isPdf = True, headerOffset = int idx\<rparr>))"

function skipBytes_loop :: "tokenizer \<Rightarrow> nat \<Rightarrow> nat \<Rightarrow> error option \<times> tokenizer" where
  "skipBytes_loop t tmpLength left =
     (if 0 < left then
        (let len = min tmpLength left
         in case readBuffer t len False of
              Inl e \<Rightarrow> (Some e, t)
            | Inr (bs, t') \<Rightarrow>
                if length bs = 0 then (Some SkipEOF, t')
                else skipBytes_loop t' tmpLength (left - length bs))
      else (None, t))"
  by pat_completeness auto
termination
  by (relation "measure (\<lambda>(t, tmpLength, left). left)") auto

declare skipBytes_loop.simps [simp del]

definition skipBytes :: "tokenizer \<Rightarrow> int \<Rightarrow> error option \<times> tokenizer" where
  "skipBytes t n =
     (if n \<le> 0 then (None, t)
      else skipBytes_loop t (min (64 * 1024) (nat n)) (nat n))"

section \<open>Buffered line and byte reader (PdfTokenizerReader)\<close>

text \<open>
  What \<open>console.log\<close> is called with: one constructor per message template of the two
  source files, holding the values the template interpolates.
\<close>

datatype log_event =
    LogReaderEOF int string
  | LogHeader int int
  | LogStart
  | LogFoundObject string string
  | LogObjToRoot
  | LogDictContent string
  | LogStreamKeyword bool
  | LogStartStream int
  | LogXmlDetected
  | LogCreatorTool string
  | LogStreamToObj
  | LogDone

text \<open>
  The reader's fields, and the process console that \<open>console.log\<close> appends to: JavaScript
  has it as global state, the model threads it through the reader. \<open>buf.length - pos\<close>
  is written on the naturals; \<open>pos \<le> buf.length\<close> holds in every state the class can
  reach (lemma \<open>reader_ok_readLine\<close> and its siblings below), so the difference is never
  negative.
\<close>

record reader =
  tokenizer :: tokenizer
  buf :: "byte list"
  pos :: nat
  chunkSize :: nat
  eof :: bool
  debug :: bool
  console :: "log_event list"

record reader_options =
  opt_chunkSize :: "nat option"
  opt_debug :: "bool option"

definition new_reader :: "tokenizer \<Rightarrow> reader_options \<Rightarrow> log_event list \<Rightarrow> reader" where
  "new_reader t opts out =
     \<lparr>tokenizer = t, buf = [], pos = 0,
      chunkSize = (case opt_chunkSize opts of None \<Rightarrow> 64 * 1024 | Some c \<Rightarrow> c),
      eof = False,
      debug = (case opt_debug opts of None \<Rightarrow> False | Some d \<Rightarrow> d),
      console = out\<rparr>"

definition reader_log :: "reader \<Rightarrow> log_event \<Rightarrow> reader" where
  "reader_log r msg = (if debug r then r\<lparr>console := console r @ [msg]\<rparr> else r)"

definition getPosition :: "reader \<Rightarrow> int" where
  "getPosition r =
     (let bufferedRemaining = int (length (buf r)) - int (pos r)
      in int (position (tokenizer r)) - bufferedRemaining)"

text \<open>
  The tokenizer of this model raises nothing but \<open>EndOfStreamError\<close>, which both helpers
  turn into "0 bytes"; their rethrow branch has no counterpart.
\<close>

definition peekMayBeLess :: "reader \<Rightarrow> nat \<Rightarrow> byte list" where
  "peekMayBeLess r len =
     (case peekBuffer (tokenizer r) len True of Inl e \<Rightarrow> [] | Inr bs \<Rightarrow> bs)"

definition readMayBeLess :: "reader \<Rightarrow> nat \<Rightarrow> byte list \<times> tokenizer" where
  "readMayBeLess r len =
     (case readBuffer (tokenizer r) len True of
        Inl e \<Rightarrow> ([], tokenizer r)
      | Inr (bs, t') \<Rightarrow> (bs, t'))"

definition compactBuffer :: "reader \<Rightarrow> reader" where
  "compactBuffer r = (if 0 < pos r then r\<lparr>buf := drop (pos r) (buf r), pos := 0\<rparr> else r)"

definition avail :: "reader \<Rightarrow> nat" where
  "avail r = length (buf r) - pos r"

definition fill_eof :: "reader \<Rightarrow> string \<Rightarrow> reader" where
  "fill_eof r which =
     (let r' = r\<lparr>eof := True\<rparr>
      in reader_log r' (LogReaderEOF (getPosition r') which))"

function fill :: "reader \<Rightarrow> nat \<Rightarrow> reader" where
  "fill r minBytes =
     (if \<not> eof r \<and> avail r < minBytes then
        (let r1 = compactBuffer r;
             peeked = peekMayBeLess r1 (chunkSize r1)
         in if length peeked = 0 then fill_eof r1 ''peekBuffer''
            else (case readMayBeLess r1 (length peeked) of
                    (slice, t') \<Rightarrow>
                      if length slice = 0 then fill_eof r1 ''readBuffer''
                      else fill (r1\<lparr>tokenizer := t', buf := buf r1 @ slice\<rparr>) minBytes))
      else r)"
  by pat_completeness auto

lemma readMayBeLess_shrinks:
  assumes "(slice, t') = readMayBeLess r len" and "slice \<noteq> []"
  shows "length (remaining t') < length (remaining (tokenizer r))"
  using assms
  by (auto simp: readMayBeLess_def readBuffer_def peekBuffer_def remaining_def Let_def
           split: sum.splits if_splits)

termination fill
  apply (relation "measure (\<lambda>(r, minBytes). length (remaining (tokenizer r)))")
   apply simp
  apply (auto dest!: readMayBeLess_shrinks simp: compactBuffer_def split: if_splits)
  done

declare fill.simps [simp del]


text \<open>The bytes the reader has not handed out yet: the rest of its buffer, then the rest of the source.\<close>

definition unreadBytes :: "reader \<Rightarrow> byte list" where
  "unreadBytes r = drop (pos r) (buf r) @ remaining (tokenizer r)"

lemma reader_log_fields [simp]:
  "tokenizer (reader_log r msg) = tokenizer r"
  "buf (reader_log r msg) = buf r"
  "pos (reader_log r msg) = pos r"
  "chunkSize (reader_log r msg) = chunkSize r"
  "eof (reader_log r msg) = eof r"
  "debug (reader_log r msg) = debug r"
  by (simp_all add: reader_log_def)

lemma fill_eof_fields [simp]:
  "tokenizer (fill_eof r w) = tokenizer r"
  "buf (fill_eof r w) = buf r"
  "pos (fill_eof r w) = pos r"
  "chunkSize (fill_eof r w) = chunkSize r"
  "eof (fill_eof r w) = True"
  "debug (fill_eof r w) = debug r"
  by (simp_all add: fill_eof_def Let_def)

lemma compactBuffer_fields [simp]:
  "tokenizer (compactBuffer r) = tokenizer r"
  "buf (compactBuffer r) = drop (pos r) (buf r)"
  "pos (compactBuffer r) = 0"
  "chunkSize (compactBuffer r) = chunkSize r"
  "eof (compactBuffer r) = eof r"
  "debug (compactBuffer r) = debug r"
  "console (compactBuffer r) = console r"
  by (simp_all add: compactBuffer_def)

lemma avail_simps [simp]:
  "avail (fill_eof r w) = avail r"
  "avail (compactBuffer r) = avail r"
  "avail (reader_log r msg) = avail r"
  by (simp_all add: avail_def)

lemma unreadBytes_simps [simp]:
  "unreadBytes (fill_eof r w) = unreadBytes r"
  "unreadBytes (compactBuffer r) = unreadBytes r"
  "unreadBytes (reader_log r msg) = unreadBytes r"
  by (simp_all add: unreadBytes_def)

lemma readMayBeLess_eq:
  "readMayBeLess r len =
     (take len (remaining (tokenizer r)),
      (tokenizer r)\<lparr>position := position (tokenizer r) + length (take len (remaining (tokenizer r)))\<rparr>)"
  by (simp add: readMayBeLess_def readBuffer_def peekBuffer_def Let_def)

lemma peekMayBeLess_eq: "peekMayBeLess r len = take len (remaining (tokenizer r))"
  by (simp add: peekMayBeLess_def peekBuffer_def Let_def)

lemma remaining_advance:
  "remaining (t\<lparr>position := position t + n\<rparr>) = drop n (remaining t)"
  by (simp add: remaining_def add.commute)

lemma fill_stop: "eof r \<or> minBytes \<le> avail r \<Longrightarrow> fill r minBytes = r"
  by (subst fill.simps) auto

lemma take_length_take: "take (length (take n xs)) xs = take n xs"
  by (cases "n \<le> length xs") (simp_all add: min_def)

lemma drop_length_take: "drop (length (take n xs)) xs = drop n xs"
  by (cases "n \<le> length xs") (simp_all add: min_def)

lemma fill_step:
  assumes "\<not> eof r" and "avail r < minBytes"
  shows "fill r minBytes =
     (let r1 = compactBuffer r; slice = take (chunkSize r) (remaining (tokenizer r))
      in if slice = [] then fill_eof r1 ''peekBuffer''
         else fill (r1\<lparr>tokenizer := (tokenizer r)\<lparr>position := position (tokenizer r) + length slice\<rparr>,
                        buf := buf r1 @ slice\<rparr>) minBytes)"
proof -
  have c: "(\<not> eof r \<and> avail r < minBytes) = True"
    using assms by simp
  show ?thesis
    apply (subst fill.simps)
    apply (simp only: c if_True Let_def readMayBeLess_eq peekMayBeLess_eq compactBuffer_fields
                      take_length_take prod.case length_0_conv)
    apply (simp only: if_False if_True cong: if_cong)
    done
qed

lemma fill_unreadBytes [simp]: "unreadBytes (fill r minBytes) = unreadBytes r"
proof (induction r minBytes rule: fill.induct)
  case (1 r minBytes)
  show ?case
  proof (cases "\<not> eof r \<and> avail r < minBytes")
    case False
    then show ?thesis using fill_stop [of r minBytes] by auto
  next
    case True
    show ?thesis
    proof (cases "take (chunkSize r) (remaining (tokenizer r)) = []")
      case True
      with \<open>\<not> eof r \<and> avail r < minBytes\<close> show ?thesis
        by (simp add: fill_step Let_def)
    next
      case False
      let ?slice = "take (chunkSize r) (remaining (tokenizer r))"
      let ?r2 = "(compactBuffer r)\<lparr>tokenizer := (tokenizer r)\<lparr>position := position (tokenizer r) + length ?slice\<rparr>,
                        buf := buf (compactBuffer r) @ ?slice\<rparr>"
      have "unreadBytes (fill ?r2 minBytes) = unreadBytes ?r2"
      proof (rule "1.IH" [OF True refl refl])
        show "length (peekMayBeLess (compactBuffer r) (chunkSize (compactBuffer r))) \<noteq> 0"
          using False by (simp add: peekMayBeLess_eq del: length_take)
        show "(?slice, (tokenizer r)\<lparr>position := position (tokenizer r) + length ?slice\<rparr>)
              = readMayBeLess (compactBuffer r)
                  (length (peekMayBeLess (compactBuffer r) (chunkSize (compactBuffer r))))"
          by (simp add: readMayBeLess_eq peekMayBeLess_eq take_length_take del: length_take)
        show "length ?slice \<noteq> 0"
          using False by (simp del: length_take)
      qed
      moreover have "unreadBytes ?r2 = unreadBytes r"
        by (simp add: unreadBytes_def remaining_advance drop_length_take del: length_take)
      ultimately show ?thesis
        using True False by (simp add: fill_step Let_def del: length_take)
    qed
  qed
qed


text \<open>One successful round of the loop of \<open>fill\<close>: compact, peek a chunk, read it, append it.\<close>

definition fill_read :: "reader \<Rightarrow> reader" where
  "fill_read r =
     (let slice = take (chunkSize r) (remaining (tokenizer r))
      in (compactBuffer r)\<lparr>tokenizer := (tokenizer r)\<lparr>position := position (tokenizer r) + length slice\<rparr>,
                           buf := buf (compactBuffer r) @ slice\<rparr>)"

lemma fill_at_eof:
  "\<not> eof r \<Longrightarrow> avail r < minBytes \<Longrightarrow> take (chunkSize r) (remaining (tokenizer r)) = [] \<Longrightarrow>
   fill r minBytes = fill_eof (compactBuffer r) ''peekBuffer''"
  by (simp add: fill_step Let_def)

lemma fill_more:
  "\<not> eof r \<Longrightarrow> avail r < minBytes \<Longrightarrow> take (chunkSize r) (remaining (tokenizer r)) \<noteq> [] \<Longrightarrow>
   fill r minBytes = fill (fill_read r) minBytes"
  by (simp add: fill_step fill_read_def Let_def del: length_take)

lemma fill_read_shrinks:
  "take (chunkSize r) (remaining (tokenizer r)) \<noteq> [] \<Longrightarrow>
   length (remaining (tokenizer (fill_read r))) < length (remaining (tokenizer r))"
  by (auto simp: fill_read_def Let_def remaining_advance)

lemma fill_read_fields [simp]:
  "chunkSize (fill_read r) = chunkSize r"
  "eof (fill_read r) = eof r"
  "debug (fill_read r) = debug r"
  "console (fill_read r) = console r"
  "pos (fill_read r) = 0"
  "buf (fill_read r) = drop (pos r) (buf r) @ take (chunkSize r) (remaining (tokenizer r))"
  "remaining (tokenizer (fill_read r)) = drop (chunkSize r) (remaining (tokenizer r))"
  by (simp_all add: fill_read_def Let_def remaining_advance drop_length_take del: length_take)

lemma fill_cases [case_names stop at_eof more]:
  assumes "\<And>r. eof r \<or> minBytes \<le> avail r \<Longrightarrow> fill r minBytes = r \<Longrightarrow> P r"
    and "\<And>r. \<not> eof r \<Longrightarrow> avail r < minBytes
            \<Longrightarrow> take (chunkSize r) (remaining (tokenizer r)) = []
            \<Longrightarrow> fill r minBytes = fill_eof (compactBuffer r) ''peekBuffer'' \<Longrightarrow> P r"
    and "\<And>r. \<not> eof r \<Longrightarrow> avail r < minBytes
            \<Longrightarrow> take (chunkSize r) (remaining (tokenizer r)) \<noteq> []
            \<Longrightarrow> fill r minBytes = fill (fill_read r) minBytes
            \<Longrightarrow> P (fill_read r) \<Longrightarrow> P r"
  shows "P r"
proof (induction "length (remaining (tokenizer r))" arbitrary: r rule: less_induct)
  case less
  show ?case
  proof (cases "eof r \<or> minBytes \<le> avail r")
    case True
    then show ?thesis using assms(1) fill_stop by blast
  next
    case False
    then have c: "\<not> eof r" "avail r < minBytes" by auto
    show ?thesis
    proof (cases "take (chunkSize r) (remaining (tokenizer r)) = []")
      case True
      then show ?thesis using assms(2) c fill_at_eof by blast
    next
      case False
      then show ?thesis
        using assms(3) [OF c False fill_more [OF c False]] less [OF fill_read_shrinks [OF False]]
        by blast
    qed
  qed
qed

lemma fill_result: "eof (fill r minBytes) \<or> minBytes \<le> avail (fill r minBytes)"
  by (induction r rule: fill_cases [where minBytes = minBytes]) auto

lemma fill_remaining_le:
  "length (remaining (tokenizer (fill r minBytes))) \<le> length (remaining (tokenizer r))"
  by (induction r rule: fill_cases [where minBytes = minBytes]) auto

lemma fill_chunkSize [simp]: "chunkSize (fill r minBytes) = chunkSize r"
  by (induction r rule: fill_cases [where minBytes = minBytes]) auto

lemma fill_debug [simp]: "debug (fill r minBytes) = debug r"
  by (induction r rule: fill_cases [where minBytes = minBytes]) auto

lemma length_unreadBytes:
  "length (unreadBytes r) = avail r + length (remaining (tokenizer r))"
  by (simp add: unreadBytes_def avail_def)

lemma fill_progress:
  assumes "\<not> (avail (fill r (avail r + 1)) = avail r \<and> eof (fill r (avail r + 1)))"
  shows "length (remaining (tokenizer (fill r (avail r + 1)))) < length (remaining (tokenizer r))"
proof -
  let ?r' = "fill r (avail r + 1)"
  have "avail ?r' + length (remaining (tokenizer ?r')) = avail r + length (remaining (tokenizer r))"
    using fill_unreadBytes [of r "avail r + 1"] length_unreadBytes by metis
  moreover have "length (remaining (tokenizer ?r')) \<le> length (remaining (tokenizer r))"
    by (rule fill_remaining_le)
  moreover have "eof ?r' \<or> avail r + 1 \<le> avail ?r'"
    by (rule fill_result)
  ultimately show ?thesis using assms by linarith
qed

text \<open>
  \<open>Buffer.indexOf(value, byteOffset)\<close>: the first index at or after \<open>byteOffset\<close> that
  holds \<open>value\<close>; \<open>-1\<close> is \<open>None\<close>. \<open>subarray(start, end)\<close> is \<open>take (end - start) (drop start buf)\<close>.
\<close>

definition bufIndexOf :: "byte list \<Rightarrow> byte \<Rightarrow> nat \<Rightarrow> nat option" where
  "bufIndexOf b v byteOffset =
     (let skipped = takeWhile (\<lambda>x. x \<noteq> v) (drop byteOffset b)
      in if length skipped = length (drop byteOffset b) then None
         else Some (byteOffset + length skipped))"

definition subarray :: "byte list \<Rightarrow> nat \<Rightarrow> nat \<Rightarrow> byte list" where
  "subarray b start end' = take (end' - start) (drop start b)"

function readLine :: "reader \<Rightarrow> string option \<times> reader" where
  "readLine r =
     (case bufIndexOf (buf r) (CHR 0x0A) (pos r) of
        Some idx \<Rightarrow>
          (let lineBuf = subarray (buf r) (pos r) idx;
               lineBuf = (if length lineBuf \<noteq> 0 \<and> lineBuf ! (length lineBuf - 1) = CHR 0x0D
                          then take (length lineBuf - 1) lineBuf else lineBuf)
           in (Some lineBuf, r\<lparr>pos := idx + 1\<rparr>))
      | None \<Rightarrow>
          (let nBefore = avail r;
               r' = fill r (nBefore + 1);
               nAfter = avail r'
           in if nAfter = nBefore \<and> eof r' then
                (if nBefore = 0 then (None, r')
                 else (Some (drop (pos r') (buf r')), r'\<lparr>pos := length (buf r')\<rparr>))
              else readLine r'))"
  by pat_completeness auto
termination
  apply (relation "measure (\<lambda>r. length (remaining (tokenizer r)))")
   apply simp
  apply (simp only: in_measure)
  apply (rule fill_progress)
  apply assumption
  done

declare readLine.simps [simp del]

definition readBytes :: "reader \<Rightarrow> int \<Rightarrow> error + (byte list option \<times> reader)" where
  "readBytes r n =
     (if n < 0 then Inl ReadBytesNegative
      else if n = 0 then Inr (Some [], r)
      else (let r' = fill r (nat n);
                avail' = avail r'
            in if int avail' < n then Inr (None, r')
               else Inr (Some (subarray (buf r') (pos r') (pos r' + nat n)),
                         r'\<lparr>pos := pos r' + nat n\<rparr>)))"

definition consumeStreamEol :: "reader \<Rightarrow> reader" where
  "consumeStreamEol r =
     (let r1 = fill r 1
      in if avail r1 \<le> 0 then r1
         else (let b0 = buf r1 ! pos r1
               in if b0 = CHR 0x0D then
                    (let r2 = fill r1 2
                     in if 2 \<le> avail r2 \<and> buf r2 ! (pos r2 + 1) = CHR 0x0A
                        then r2\<lparr>pos := pos r2 + 2\<rparr>
                        else r2\<lparr>pos := pos r2 + 1\<rparr>)
                  else if b0 = CHR 0x0A then r1\<lparr>pos := pos r1 + 1\<rparr>
                  else r1))"


lemma bufIndexOf_Some:
  assumes "bufIndexOf b v k = Some idx"
  shows "k \<le> idx" and "idx < length b" and "b ! idx = v"
    and "takeWhile (\<lambda>x. x \<noteq> v) (drop k b) = take (idx - k) (drop k b)"
proof -
  let ?d = "drop k b"
  let ?w = "takeWhile (\<lambda>x. x \<noteq> v) ?d"
  from assms have ne: "length ?w \<noteq> length ?d" and idx: "idx = k + length ?w"
    by (auto simp: bufIndexOf_def Let_def split: if_splits)
  have le: "length ?w \<le> length ?d" by (rule length_takeWhile_le)
  with ne have lt: "length ?w < length ?d" by simp
  show "k \<le> idx" using idx by simp
  show "idx < length b" using lt idx by simp
  have "?d ! length ?w = v"
    using nth_length_takeWhile [OF lt] by simp
  then show "b ! idx = v" using idx lt by (simp add: add.commute)
  show "?w = take (idx - k) ?d"
    using idx takeWhile_eq_take [of "\<lambda>x. x \<noteq> v" ?d] by simp
qed

lemma length_takeWhile_eq: "length (takeWhile P xs) = length xs \<longleftrightarrow> (\<forall>x\<in>set xs. P x)"
  by (induction xs) auto

lemma bufIndexOf_None: "bufIndexOf b v k = None \<longleftrightarrow> v \<notin> set (drop k b)"
  using length_takeWhile_eq [of "\<lambda>x. x \<noteq> v" "drop k b"]
  by (auto simp: bufIndexOf_def Let_def simp del: length_drop)

text \<open>The three ways one round of the loop of \<open>readLine\<close> can go.\<close>

definition strip_cr :: "byte list \<Rightarrow> byte list" where
  "strip_cr lineBuf =
     (if length lineBuf \<noteq> 0 \<and> lineBuf ! (length lineBuf - 1) = CHR 0x0D
      then take (length lineBuf - 1) lineBuf else lineBuf)"

lemma readLine_found:
  "bufIndexOf (buf r) (CHR 0x0A) (pos r) = Some idx \<Longrightarrow>
   readLine r = (Some (strip_cr (subarray (buf r) (pos r) idx)), r\<lparr>pos := idx + 1\<rparr>)"
  by (subst readLine.simps) (simp add: Let_def strip_cr_def)

lemma readLine_at_end:
  "bufIndexOf (buf r) (CHR 0x0A) (pos r) = None \<Longrightarrow>
   avail (fill r (avail r + 1)) = avail r \<Longrightarrow> eof (fill r (avail r + 1)) \<Longrightarrow>
   readLine r =
     (let r' = fill r (avail r + 1)
      in if avail r = 0 then (None, r')
         else (Some (drop (pos r') (buf r')), r'\<lparr>pos := length (buf r')\<rparr>))"
  by (subst readLine.simps) (simp add: Let_def)

lemma readLine_again:
  "bufIndexOf (buf r) (CHR 0x0A) (pos r) = None \<Longrightarrow>
   \<not> (avail (fill r (avail r + 1)) = avail r \<and> eof (fill r (avail r + 1))) \<Longrightarrow>
   readLine r = readLine (fill r (avail r + 1))"
  by (subst readLine.simps) (auto simp: Let_def)

lemma readLine_cases [case_names found at_end again]:
  assumes "\<And>r idx. bufIndexOf (buf r) (CHR 0x0A) (pos r) = Some idx \<Longrightarrow> P r"
    and "\<And>r. bufIndexOf (buf r) (CHR 0x0A) (pos r) = None
            \<Longrightarrow> avail (fill r (avail r + 1)) = avail r \<Longrightarrow> eof (fill r (avail r + 1)) \<Longrightarrow> P r"
    and "\<And>r. bufIndexOf (buf r) (CHR 0x0A) (pos r) = None
            \<Longrightarrow> \<not> (avail (fill r (avail r + 1)) = avail r \<and> eof (fill r (avail r + 1)))
            \<Longrightarrow> readLine r = readLine (fill r (avail r + 1))
            \<Longrightarrow> P (fill r (avail r + 1)) \<Longrightarrow> P r"
  shows "P r"
proof (induction "length (remaining (tokenizer r))" arbitrary: r rule: less_induct)
  case less
  show ?case
  proof (cases "bufIndexOf (buf r) (CHR 0x0A) (pos r)")
    case (Some idx)
    then show ?thesis by (rule assms(1))
  next
    case None
    show ?thesis
    proof (cases "avail (fill r (avail r + 1)) = avail r \<and> eof (fill r (avail r + 1))")
      case True
      then show ?thesis using assms(2) None by blast
    next
      case False
      show ?thesis
        using assms(3) [OF None False readLine_again [OF None False]]
              less [OF fill_progress [OF False]] by blast
    qed
  qed
qed

lemma readLine_consumes:
  "readLine r = (Some l, r') \<Longrightarrow> length (unreadBytes r') < length (unreadBytes r)"
proof (induction r rule: readLine_cases)
  case (found r idx)
  from bufIndexOf_Some(1,2) [OF found(1)] found(2) show ?case
    by (auto simp: readLine_found [OF found(1)] unreadBytes_def)
next
  case (at_end r)
  let ?f = "fill r (avail r + 1)"
  have "length (unreadBytes ?f) = length (unreadBytes r)" by simp
  then have "avail ?f + length (remaining (tokenizer ?f)) = length (unreadBytes r)"
    by (simp only: length_unreadBytes)
  then have *: "avail r + length (remaining (tokenizer ?f)) = length (unreadBytes r)"
    using at_end(2) by simp
  from at_end(4) have "avail r \<noteq> 0" and "r' = ?f\<lparr>pos := length (buf ?f)\<rparr>"
    by (auto simp: readLine_at_end [OF at_end(1,2,3)] Let_def split: if_splits)
  then show ?case using * by (simp add: unreadBytes_def)
next
  case (again r)
  then show ?case by simp
qed


section \<open>Strings and regular expressions (src/lib/index.ts)\<close>

text \<open>
  The character classes of the regular expressions, on code units up to 255 (all a
  latin1 line can hold): \<open>\s\<close> and the characters \<open>trim()\<close> strips are tab, line feed,
  vertical tab, form feed, carriage return, space and no-break space; \<open>\d\<close> is \<open>[0-9]\<close>;
  \<open>\w\<close> is \<open>[A-Za-z0-9_]\<close>.
\<close>

definition isSpace :: "char \<Rightarrow> bool" where
  "isSpace c \<longleftrightarrow>
     c = CHR 0x09 \<or> c = CHR 0x0A \<or> c = CHR 0x0B \<or> c = CHR 0x0C \<or> c = CHR 0x0D
     \<or> c = CHR 0x20 \<or> c = CHR 0xA0"

definition isDigit :: "char \<Rightarrow> bool" where
  "isDigit c \<longleftrightarrow> CHR ''0'' \<le> c \<and> c \<le> CHR ''9''"

definition isWordChar :: "char \<Rightarrow> bool" where
  "isWordChar c \<longleftrightarrow>
     (CHR ''A'' \<le> c \<and> c \<le> CHR ''Z'') \<or> (CHR ''a'' \<le> c \<and> c \<le> CHR ''z'')
     \<or> (CHR ''0'' \<le> c \<and> c \<le> CHR ''9'') \<or> c = CHR ''_''"

definition trim :: "string \<Rightarrow> string" where
  "trim s = rev (dropWhile isSpace (rev (dropWhile isSpace s)))"

fun str_includes :: "string \<Rightarrow> string \<Rightarrow> bool" where
  "str_includes [] needle = (needle = [])"
| "str_includes (c # s) needle = (prefix needle (c # s) \<or> str_includes s needle)"

definition startsWith :: "string \<Rightarrow> string \<Rightarrow> bool" where
  "startsWith s p = prefix p s"

definition endsWith :: "string \<Rightarrow> string \<Rightarrow> bool" where
  "endsWith s p = suffix p s"

text \<open>\<open>s.indexOf(needle, from)\<close> for \<open>from \<le> s.length\<close>; \<open>-1\<close> is \<open>None\<close>.\<close>

fun strIndexOf_loop :: "string \<Rightarrow> string \<Rightarrow> nat \<Rightarrow> nat option" where
  "strIndexOf_loop [] needle i = (if needle = [] then Some i else None)"
| "strIndexOf_loop (c # s) needle i =
     (if prefix needle (c # s) then Some i else strIndexOf_loop s needle (i + 1))"

definition strIndexOf :: "string \<Rightarrow> string \<Rightarrow> nat \<Rightarrow> nat option" where
  "strIndexOf s needle from = strIndexOf_loop (drop from s) needle (min from (length s))"

definition slice :: "string \<Rightarrow> nat \<Rightarrow> nat \<Rightarrow> string" where
  "slice s start end' = take (end' - start) (drop start s)"

text \<open>
  \<open>OBJ_REGEX = /^\s*(\d+)\s+(\d+)\s+obj\b/\<close>. The classes that follow each other are
  disjoint, so each greedy run is the only one a match can use. \<open>\b\<close> after \<open>obj\<close>
  holds at the end of the line and before a character outside \<open>\w\<close>. The result is the
  two groups.
\<close>

definition OBJ_REGEX_exec :: "string \<Rightarrow> (string \<times> string) option" where
  "OBJ_REGEX_exec line =
     (let s1 = dropWhile isSpace line;
          m1 = takeWhile isDigit s1; s2 = dropWhile isDigit s1;
          w2 = takeWhile isSpace s2; s3 = dropWhile isSpace s2;
          m2 = takeWhile isDigit s3; s4 = dropWhile isDigit s3;
          w3 = takeWhile isSpace s4; s5 = dropWhile isSpace s4
      in if m1 \<noteq> [] \<and> w2 \<noteq> [] \<and> m2 \<noteq> [] \<and> w3 \<noteq> [] \<and> prefix ''obj'' s5
            \<and> (case drop 3 s5 of [] \<Rightarrow> True | c # _ \<Rightarrow> \<not> isWordChar c)
         then Some (m1, m2) else None)"

text \<open>
  \<open>dictText.replace(/\s+/g, " ")\<close>, used by a log message only.
\<close>

function collapseSpaces :: "string \<Rightarrow> string" where
  "collapseSpaces [] = []"
| "collapseSpaces (c # s) =
     (if isSpace c then CHR '' '' # collapseSpaces (dropWhile isSpace s)
      else c # collapseSpaces s)"
  by pat_completeness auto
termination
  by (relation "measure length") (auto simp: length_dropWhile_le less_Suc_eq_le)

section \<open>Dictionary parser\<close>

datatype DictValue = Flag | Str string

type_synonym Dict = "string \<rightharpoonup> DictValue"

text \<open>
  \<open>dictRegex = /\/(\w+)(?:\s+([^/>\n\r]+))?/g\<close>. One \<open>exec\<close> finds the first slash that a
  word character follows; group 1 is the greedy run of word characters. The optional
  group then needs one or more \<open>\s\<close> and one or more characters other than slash,
  \<open>>\<close>, line feed and carriage return: \<open>\s+\<close> first takes the whole run of spaces
  and, while group 2 finds no character to start at, gives its last character back
  (\<open>valueGroup_try\<close> counts down the length that \<open>\s+\<close> keeps). \<open>dictRegex_exec\<close> works on
  the text from \<open>lastIndex\<close> on and returns the groups with the text after the match.
\<close>

definition isValueChar :: "char \<Rightarrow> bool" where
  "isValueChar c \<longleftrightarrow> c \<noteq> CHR ''/'' \<and> c \<noteq> CHR ''>'' \<and> c \<noteq> CHR 0x0A \<and> c \<noteq> CHR 0x0D"

fun valueGroup_try :: "string \<Rightarrow> nat \<Rightarrow> (string \<times> string) option" where
  "valueGroup_try s 0 = None"
| "valueGroup_try s (Suc k) =
     (case drop (Suc k) s of
        [] \<Rightarrow> valueGroup_try s k
      | c # t \<Rightarrow> if isValueChar c
                 then Some (takeWhile isValueChar (c # t), dropWhile isValueChar (c # t))
                 else valueGroup_try s k)"

definition valueGroup :: "string \<Rightarrow> (string \<times> string) option" where
  "valueGroup s = valueGroup_try s (length (takeWhile isSpace s))"

fun dictRegex_exec :: "string \<Rightarrow> ((string \<times> string option) \<times> string) option" where
  "dictRegex_exec [] = None"
| "dictRegex_exec (c # s) =
     (if c = CHR ''/'' \<and> takeWhile isWordChar s \<noteq> [] then
        (let key = takeWhile isWordChar s; s1 = dropWhile isWordChar s
         in case valueGroup s1 of
              None \<Rightarrow> Some ((key, None), s1)
            | Some (v, s2) \<Rightarrow> Some ((key, Some v), s2))
      else dictRegex_exec s)"

lemma valueGroup_try_shorter:
  "valueGroup_try s k = Some (v, rest) \<Longrightarrow> length rest \<le> length s"
proof (induction k)
  case 0
  then show ?case by simp
next
  case (Suc k)
  show ?case
  proof (cases "drop (Suc k) s")
    case Nil
    with Suc show ?thesis by simp
  next
    case (Cons c t)
    have "length (dropWhile isValueChar (c # t)) \<le> length (c # t)"
      by (rule length_dropWhile_le)
    also have "\<dots> = length (drop (Suc k) s)" using Cons by simp
    also have "\<dots> \<le> length s" by simp
    finally show ?thesis using Suc Cons by (auto split: if_splits)
  qed
qed

lemma dictRegex_exec_shorter:
  "dictRegex_exec s = Some (m, rest) \<Longrightarrow> length rest < length s"
proof (induction s)
  case Nil
  then show ?case by simp
next
  case (Cons c s)
  have d: "length (dropWhile isWordChar s) \<le> length s" by (rule length_dropWhile_le)
  show ?case
  proof (cases "c = CHR ''/'' \<and> takeWhile isWordChar s \<noteq> []")
    case False
    with Cons have "length rest < length s" by auto
    then show ?thesis by simp
  next
    case True
    show ?thesis
    proof (cases "valueGroup (dropWhile isWordChar s)")
      case None
      with True Cons.prems d show ?thesis by (auto simp: Let_def)
    next
      case (Some a)
      obtain v s2 where a: "a = (v, s2)" by (cases a)
      from Some a have "length s2 \<le> length (dropWhile isWordChar s)"
        unfolding valueGroup_def by (auto dest: valueGroup_try_shorter)
      with True Cons.prems d Some a show ?thesis by (auto simp: Let_def)
    qed
  qed
qed

text \<open>
  \<open>info[key] = value\<close> on a plain object: the key \<open>__proto__\<close> is the prototype accessor,
  and assigning \<open>true\<close> or a string to it stores nothing.
\<close>

definition setKey :: "Dict \<Rightarrow> string \<Rightarrow> DictValue \<Rightarrow> Dict" where
  "setKey info key v = (if key = ''__proto__'' then info else info(key \<mapsto> v))"

function parseDict_loop :: "string \<Rightarrow> Dict \<Rightarrow> Dict" where
  "parseDict_loop s info =
     (case dictRegex_exec s of
        None \<Rightarrow> info
      | Some ((key, m2), rest) \<Rightarrow>
          (let v = (case m2 of Some t \<Rightarrow> Str (trim t) | None \<Rightarrow> Flag)
           in parseDict_loop rest (setKey info key v)))"
  by pat_completeness auto
termination
  by (relation "measure (\<lambda>(s, info). length s)") (auto simp: dictRegex_exec_shorter)

declare parseDict_loop.simps [simp del]

definition parseDictFromRaw :: "string \<Rightarrow> Dict" where
  "parseDictFromRaw raw = parseDict_loop raw Map.empty"


section \<open>Stream filter decoder\<close>

text \<open>
  The capabilities the scanner consumes and this repository does not implement (section 6
  of the specification): the platform's \<open>DecompressionStream\<close> (\<open>None\<close> when it rejects
  the data), the UTF-8 \<open>textDecode\<close> of @borewit/text-codec and the sax parser, as the
  events that \<open>write\<close> followed by \<open>close\<close> emit for a text. The decoded text is kept
  on 8-bit characters as well: the scanner only searches it for ASCII markers.
\<close>

datatype sax_event =
    OpenTag (tag_uri: string) (tag_local: string) (tag_name: string)
  | TextEvent string
  | CloseTag
  | ErrorEvent string

record env =
  decompress :: "format \<Rightarrow> byte list \<Rightarrow> byte list option"
  textDecode :: "byte list \<Rightarrow> string"
  saxParse :: "string \<Rightarrow> sax_event list"

text \<open>\<open>String.match\<close> with the global regular expression of \<open>normalizeFilters\<close>.\<close>

definition filterNames :: "string list" where
  "filterNames = [''FlateDecode'', ''ASCII85Decode'', ''LZWDecode'', ''RunLengthDecode'']"

fun firstAlternative :: "string list \<Rightarrow> string \<Rightarrow> string option" where
  "firstAlternative [] s = None"
| "firstAlternative (a # as) s = (if prefix a s then Some a else firstAlternative as s)"

lemma firstAlternative_mem: "firstAlternative as s = Some a \<Longrightarrow> a \<in> set as"
  by (induction as) (auto split: if_splits)

lemma firstAlternative_filterNames: "firstAlternative filterNames s = Some a \<Longrightarrow> a \<noteq> []"
proof
  assume "firstAlternative filterNames s = Some a" and "a = []"
  then have "[] \<in> set filterNames" using firstAlternative_mem by fastforce
  then show False by (simp add: filterNames_def)
qed

function matchFilterNames :: "string \<Rightarrow> string list" where
  "matchFilterNames [] = []"
| "matchFilterNames (c # s) =
     (case firstAlternative filterNames (c # s) of
        Some a \<Rightarrow> a # matchFilterNames (drop (length a) (c # s))
      | None \<Rightarrow> matchFilterNames s)"
  by pat_completeness auto
termination
  apply (relation "measure length")
    apply simp
   apply simp
  apply (frule firstAlternative_filterNames)
  apply (simp del: firstAlternative.simps)
  done

text \<open>\<open>[...new Set(names)]\<close>: the names in the order of their first occurrence.\<close>

fun newSet :: "'a list \<Rightarrow> 'a list" where
  "newSet [] = []"
| "newSet (x # xs) = x # newSet (filter (\<lambda>y. y \<noteq> x) xs)"

definition normalizeFilters :: "DictValue option \<Rightarrow> string list" where
  "normalizeFilters filterValue =
     (case filterValue of
        None \<Rightarrow> []
      | Some Flag \<Rightarrow> []
      | Some (Str v) \<Rightarrow> if v = [] then [] else newSet (matchFilterNames v))"

definition inflateWithFormat :: "env \<Rightarrow> format \<Rightarrow> byte list \<Rightarrow> error + byte list" where
  "inflateWithFormat e fmt bytes =
     (case decompress e fmt bytes of None \<Rightarrow> Inl (InflateError fmt) | Some out \<Rightarrow> Inr out)"

definition inflateFlateDecode :: "env \<Rightarrow> byte list \<Rightarrow> error + byte list" where
  "inflateFlateDecode e bytes =
     (case inflateWithFormat e Deflate bytes of
        Inr out \<Rightarrow> Inr out
      | Inl err \<Rightarrow> inflateWithFormat e DeflateRaw bytes)"

fun decodeStreamBytes_loop :: "env \<Rightarrow> byte list \<Rightarrow> string list \<Rightarrow> byte list \<Rightarrow> error + byte list" where
  "decodeStreamBytes_loop e rawBytes [] out = Inr out"
| "decodeStreamBytes_loop e rawBytes (f # fs) out =
     (if f = ''FlateDecode'' then
        (case inflateFlateDecode e out of
           Inl err \<Rightarrow> Inl err
         | Inr out' \<Rightarrow> decodeStreamBytes_loop e rawBytes fs out')
      else Inr rawBytes)"

definition decodeStreamBytes :: "env \<Rightarrow> Dict \<Rightarrow> byte list \<Rightarrow> error + byte list" where
  "decodeStreamBytes e objectInfo rawBytes =
     (let filters = normalizeFilters (objectInfo ''Filter'')
      in if length filters = 0 then Inr rawBytes
         else decodeStreamBytes_loop e rawBytes filters rawBytes)"

section \<open>Dictionary block\<close>

function readDictionaryBlock_loop :: "reader \<Rightarrow> string \<Rightarrow> string \<times> reader" where
  "readDictionaryBlock_loop r raw =
     (if \<not> str_includes raw ''>>'' then
        (case readLine r of
           (None, r') \<Rightarrow> (raw, r')
         | (Some next, r') \<Rightarrow> readDictionaryBlock_loop r' (raw @ [CHR 0x0A] @ next))
      else (raw, r))"
  by pat_completeness auto
termination
  by (relation "measure (\<lambda>(r, raw). length (unreadBytes r))")
     (auto dest: readLine_consumes [OF sym])

declare readDictionaryBlock_loop.simps [simp del]

record dict_block =
  dictText :: "string option"
  streamInline :: bool

definition readDictionaryBlock :: "reader \<Rightarrow> string \<Rightarrow> dict_block \<times> reader" where
  "readDictionaryBlock r firstLine =
     (case readDictionaryBlock_loop r firstLine of
        (raw, r') \<Rightarrow>
          (case strIndexOf raw ''<<'' 0 of
             None \<Rightarrow> (\<lparr>dictText = None, streamInline = False\<rparr>, r')
           | Some start \<Rightarrow>
               (case strIndexOf raw ''>>'' (start + 2) of
                  None \<Rightarrow> (\<lparr>dictText = None, streamInline = False\<rparr>, r')
                | Some end' \<Rightarrow>
                    (let dt = trim (slice raw (start + 2) end');
                         nAfter = trim (drop (end' + 2) raw);
                         inline = (nAfter = ''stream'' \<or> startsWith nAfter ''stream '')
                     in (\<lparr>dictText = Some dt, streamInline = inline\<rparr>, r')))))"


section \<open>Subtype probes\<close>

record FileTypeResult =
  ext :: string
  mime :: string

definition PDF_TYPE :: FileTypeResult where
  "PDF_TYPE = \<lparr>ext = ''pdf'', mime = ''application/pdf''\<rparr>"

definition AI_TYPE :: FileTypeResult where
  "AI_TYPE = \<lparr>ext = ''ai'', mime = ''application/illustrator''\<rparr>"

text \<open>The probe context: \<open>debug\<close>; its \<open>log\<close> function is not held, no hook calls it.\<close>

record ProbeContext =
  ctx_debug :: bool

record SubtypeProbe =
  probe_name :: string
  onDict :: "(ProbeContext \<Rightarrow> string \<Rightarrow> Dict \<Rightarrow> FileTypeResult option) option"
  onCreatorTool :: "(ProbeContext \<Rightarrow> string \<Rightarrow> FileTypeResult option) option"
  onStreamText :: "(ProbeContext \<Rightarrow> string \<Rightarrow> Dict \<Rightarrow> FileTypeResult option) option"

text \<open>\<open>toLowerCase()\<close> on code units up to 255: A to Z and the capitals of Latin-1.\<close>

definition toLowerCase :: "string \<Rightarrow> string" where
  "toLowerCase s =
     map (\<lambda>c. if (CHR ''A'' \<le> c \<and> c \<le> CHR ''Z'')
                  \<or> (CHR 0xC0 \<le> c \<and> c \<le> CHR 0xDE \<and> c \<noteq> CHR 0xD7)
               then char_of (of_char c + (32 :: nat)) else c) s"

text \<open>\<open>v && v !== true && String(v).includes(marker)\<close> for a dictionary entry \<open>v\<close>.\<close>

definition valueIncludes :: "DictValue option \<Rightarrow> string \<Rightarrow> bool" where
  "valueIncludes v marker =
     (case v of Some (Str t) \<Rightarrow> t \<noteq> [] \<and> str_includes t marker | _ \<Rightarrow> False)"

definition illustrator_onDict :: "ProbeContext \<Rightarrow> string \<Rightarrow> Dict \<Rightarrow> FileTypeResult option" where
  "illustrator_onDict ctx dt dict =
     (if dict ''Illustrator'' = Some Flag then Some AI_TYPE
      else if str_includes dt ''/Illustrator'' then Some AI_TYPE
      else (let creator = dict ''Creator''; producer = dict ''Producer''
            in if valueIncludes creator ''Illustrator'' then Some AI_TYPE
               else if valueIncludes producer ''Illustrator'' then Some AI_TYPE
               else if str_includes dt ''Adobe Illustrator'' then Some AI_TYPE
               else None))"

definition illustrator_onCreatorTool :: "ProbeContext \<Rightarrow> string \<Rightarrow> FileTypeResult option" where
  "illustrator_onCreatorTool ctx creatorTool =
     (if str_includes (toLowerCase creatorTool) ''illustrator'' then Some AI_TYPE else None)"

definition illustrator_onStreamText :: "ProbeContext \<Rightarrow> string \<Rightarrow> Dict \<Rightarrow> FileTypeResult option" where
  "illustrator_onStreamText ctx streamText objectInfo =
     (if str_includes streamText ''Adobe Illustrator'' then Some AI_TYPE else None)"

definition createIllustratorProbe :: SubtypeProbe where
  "createIllustratorProbe =
     \<lparr>probe_name = ''adobe-illustrator'',
      onDict = Some illustrator_onDict,
      onCreatorTool = Some illustrator_onCreatorTool,
      onStreamText = Some illustrator_onStreamText\<rparr>"

definition subtypeProbes :: "SubtypeProbe list" where
  "subtypeProbes = [createIllustratorProbe]"

text \<open>The two \<open>for (const probe of subtypeProbes)\<close> loops: the first hit ends the loop.\<close>

fun dictProbes :: "ProbeContext \<Rightarrow> SubtypeProbe list \<Rightarrow> string \<Rightarrow> Dict \<Rightarrow> FileTypeResult option" where
  "dictProbes ctx [] dt objectInfo = None"
| "dictProbes ctx (probe # probes) dt objectInfo =
     (case onDict probe of
        None \<Rightarrow> dictProbes ctx probes dt objectInfo
      | Some hook \<Rightarrow>
          (case hook ctx dt objectInfo of
             Some hit \<Rightarrow> Some hit
           | None \<Rightarrow> dictProbes ctx probes dt objectInfo))"

fun streamProbes :: "ProbeContext \<Rightarrow> SubtypeProbe list \<Rightarrow> string \<Rightarrow> Dict \<Rightarrow> FileTypeResult option" where
  "streamProbes ctx [] streamText objectInfo = None"
| "streamProbes ctx (probe # probes) streamText objectInfo =
     (case onStreamText probe of
        None \<Rightarrow> streamProbes ctx probes streamText objectInfo
      | Some hook \<Rightarrow>
          (case hook ctx streamText objectInfo of
             Some hit \<Rightarrow> Some hit
           | None \<Rightarrow> streamProbes ctx probes streamText objectInfo))"

definition creatorToolListeners :: "(ProbeContext \<Rightarrow> string \<Rightarrow> FileTypeResult option) list" where
  "creatorToolListeners = List.map_filter onCreatorTool subtypeProbes"

text \<open>The loop of the \<open>onCreatorTool\<close> callback: the first hit is thrown.\<close>

fun creatorToolHit ::
  "ProbeContext \<Rightarrow> (ProbeContext \<Rightarrow> string \<Rightarrow> FileTypeResult option) list \<Rightarrow> string \<Rightarrow> FileTypeResult option" where
  "creatorToolHit ctx [] v = None"
| "creatorToolHit ctx (fn # fns) v =
     (case fn ctx v of Some hit \<Rightarrow> Some hit | None \<Rightarrow> creatorToolHit ctx fns v)"

section \<open>XMP CreatorTool extractor (XmlHandler)\<close>

definition console_log :: "bool \<Rightarrow> log_event \<Rightarrow> log_event list \<Rightarrow> log_event list" where
  "console_log dbg ev out = (if dbg then out @ [ev] else out)"

text \<open>
  What leaves \<open>xml.write(streamText); xml.close()\<close>: a normal return, the hit that the
  callback throws, or the error that \<open>onerror\<close> rethrows.
\<close>

datatype xml_exit = XmlDone | XmlHit FileTypeResult | XmlError error

fun xmlHandler ::
  "ProbeContext \<Rightarrow> sax_event list \<Rightarrow> bool \<Rightarrow> log_event list \<Rightarrow> xml_exit \<times> log_event list" where
  "xmlHandler ctx [] readingCreatorTool out = (XmlDone, out)"
| "xmlHandler ctx (ErrorEvent message # evs) readingCreatorTool out =
     (if startsWith message ''Invalid character entity''
      then xmlHandler ctx evs readingCreatorTool out
      else (XmlError (SaxError message), out))"
| "xmlHandler ctx (OpenTag uri local nm # evs) readingCreatorTool out =
     (let isCreatorTool = (uri = ''http://ns.adobe.com/xap/1.0/'' \<and> local = ''CreatorTool'');
          nameMatch = (nm = ''xap:CreatorTool'' \<or> endsWith nm '':CreatorTool'' \<or> nm = ''CreatorTool'')
      in xmlHandler ctx evs (isCreatorTool \<or> nameMatch) out)"
| "xmlHandler ctx (TextEvent v # evs) readingCreatorTool out =
     (if \<not> readingCreatorTool then xmlHandler ctx evs readingCreatorTool out
      else (let out1 = console_log (ctx_debug ctx) (LogCreatorTool v) out
            in case creatorToolHit ctx creatorToolListeners v of
                 Some hit \<Rightarrow> (XmlHit hit, out1)
               | None \<Rightarrow> xmlHandler ctx evs False out1))"
| "xmlHandler ctx (CloseTag # evs) readingCreatorTool out = xmlHandler ctx evs False out"

section \<open>Object scanner and orchestrator\<close>

text \<open>
  \<open>parseInt(lenVal, 10)\<close>: leading white space, a sign, then the longest run of decimal
  digits; \<open>NaN\<close> (no digit) is \<open>None\<close>. \<open>Number.isFinite\<close> fails for what a double rounds
  to \<open>Infinity\<close>, from \<open>2^1024 - 2^970\<close> on. A finite value above \<open>2^53\<close> is rounded by
  JavaScript and exact here; both exceed the bytes any source holds, and \<open>readBytes\<close>
  answers \<open>null\<close> for both.
\<close>

definition digitsValue :: "string \<Rightarrow> int" where
  "digitsValue ds = foldl (\<lambda>acc c. 10 * acc + (int (of_char c) - 48)) 0 ds"

definition parseInt :: "string \<Rightarrow> int option" where
  "parseInt s =
     (let s1 = dropWhile isSpace s;
          neg = (case s1 of c # t \<Rightarrow> c = CHR ''-'' | [] \<Rightarrow> False);
          s2 = (case s1 of c # t \<Rightarrow> if c = CHR ''-'' \<or> c = CHR ''+'' then t else s1 | [] \<Rightarrow> []);
          ds = takeWhile isDigit s2
      in if ds = [] then None
         else Some (if neg then - digitsValue ds else digitsValue ds))"

definition isFinite :: "int \<Rightarrow> bool" where
  "isFinite v \<longleftrightarrow> \<bar>v\<bar> < 2 ^ 1024 - 2 ^ 970"

text \<open>
  The locals of \<open>_detectPdf\<close> that the loop changes. \<open>state\<close> is \<open>0\<close> (ROOT) or \<open>10\<close> (OBJ).
\<close>

record scan_state =
  reader :: reader
  pendingLine :: "string option"
  state :: nat

definition scan_log :: "ProbeContext \<Rightarrow> scan_state \<Rightarrow> log_event \<Rightarrow> scan_state" where
  "scan_log ctx st ev =
     st\<lparr>reader := (reader st)\<lparr>console := console_log (ctx_debug ctx) ev (console (reader st))\<rparr>\<rparr>"

text \<open>The closure \<open>readLine\<close> of \<open>_detectPdf\<close>: the pushed-back line first.\<close>

definition scan_readLine :: "scan_state \<Rightarrow> string option \<times> scan_state" where
  "scan_readLine st =
     (case pendingLine st of
        Some l \<Rightarrow> (Some l, st\<lparr>pendingLine := None\<rparr>)
      | None \<Rightarrow> (case readLine (reader st) of (l, r') \<Rightarrow> (l, st\<lparr>reader := r'\<rparr>)))"

text \<open>How one pass through the body of the \<open>while\<close> loop ends.\<close>

datatype outcome = Continue | Break | Return FileTypeResult | Throw error

definition looksLikeXmp :: "Dict \<Rightarrow> bool" where
  "looksLikeXmp objectInfo \<longleftrightarrow>
     objectInfo ''Type'' = Some (Str ''Metadata'')
     \<or> objectInfo ''Type'' = Some (Str ''/Metadata'')
     \<or> objectInfo ''Subtype'' = Some (Str ''XML'')
     \<or> objectInfo ''Subtype'' = Some (Str ''/XML'')
     \<or> objectInfo ''XML'' = Some Flag"

text \<open>From the decoded stream on: the stream probes, then the XMP CreatorTool.\<close>

definition scanStreamText :: "env \<Rightarrow> ProbeContext \<Rightarrow> scan_state \<Rightarrow> Dict \<Rightarrow> byte list \<Rightarrow> outcome \<times> scan_state" where
  "scanStreamText e ctx st objectInfo rawBytes =
     (case decodeStreamBytes e objectInfo rawBytes of
        Inl err \<Rightarrow> (Throw err, st)
      | Inr decodedBytes \<Rightarrow>
          (let streamText = textDecode e decodedBytes
           in case streamProbes ctx subtypeProbes streamText objectInfo of
                Some hit \<Rightarrow> (Return hit, st)
              | None \<Rightarrow>
                  if looksLikeXmp objectInfo \<and> length creatorToolListeners \<noteq> 0 then
                    (let st1 = scan_log ctx st LogXmlDetected
                     in case xmlHandler ctx (saxParse e streamText) False (console (reader st1)) of
                          (XmlHit hit, out) \<Rightarrow> (Return hit, st1\<lparr>reader := (reader st1)\<lparr>console := out\<rparr>\<rparr>)
                        | (XmlError err, out) \<Rightarrow> (Throw err, st1\<lparr>reader := (reader st1)\<lparr>console := out\<rparr>\<rparr>)
                        | (XmlDone, out) \<Rightarrow>
                            (Continue, scan_log ctx (st1\<lparr>reader := (reader st1)\<lparr>console := out\<rparr>\<rparr>) LogStreamToObj))
                  else (Continue, scan_log ctx st LogStreamToObj)))"

text \<open>
  One pass through the body of the loop, in the order of the source: from the top to
  the dictionary text of an object (\<open>scanToDictionary\<close>), the dictionary probes, from
  "Stream check with pushback" to the payload (\<open>scanToPayload\<close>), then the decoded
  stream (\<open>scanStreamText\<close>). \<open>Inl\<close> is a pass that ends on the way, with how it ends.
\<close>

definition scanToDictionary ::
  "ProbeContext \<Rightarrow> scan_state \<Rightarrow> (outcome \<times> scan_state) + (string \<times> bool \<times> scan_state)" where
  "scanToDictionary ctx st0 =
     (case scan_readLine st0 of
        (None, st) \<Rightarrow> Inl (Break, st)
      | (Some line, st) \<Rightarrow>
          if state st = 0 then
            (case OBJ_REGEX_exec line of
               Some (m1, m2) \<Rightarrow> Inl (Continue, (scan_log ctx st (LogFoundObject m1 m2))\<lparr>state := 10\<rparr>)
             | None \<Rightarrow> Inl (Continue, st))
          else if state st = 10 then
            (if trim line = ''endobj'' then Inl (Continue, (scan_log ctx st LogObjToRoot)\<lparr>state := 0\<rparr>)
             else if \<not> str_includes line ''<<'' then Inl (Continue, st)
             else (case readDictionaryBlock (reader st) line of
                     (blk, r1) \<Rightarrow>
                       (case dictText blk of
                          None \<Rightarrow> Inl (Continue, st\<lparr>reader := r1\<rparr>)
                        | Some dt \<Rightarrow>
                            if dt = [] then Inl (Continue, st\<lparr>reader := r1\<rparr>)
                            else Inr (dt, streamInline blk, st\<lparr>reader := r1\<rparr>))))
          else Inl (Continue, st))"

text \<open>
  The stream check: \<open>None\<close> is the \<open>break\<close> on a missing next line, otherwise
  \<open>hasStream\<close>; a next line that is not the keyword goes to \<open>pendingLine\<close>.
\<close>

definition streamCheck :: "scan_state \<Rightarrow> bool \<Rightarrow> bool option \<times> scan_state" where
  "streamCheck st inline =
     (if inline then (Some True, st)
      else (case scan_readLine st of
              (None, st1) \<Rightarrow> (None, st1)
            | (Some nextLine, st1) \<Rightarrow>
                if trim nextLine = ''stream'' then (Some True, st1)
                else (Some False, st1\<lparr>pendingLine := Some nextLine\<rparr>)))"

definition scanToPayload ::
  "ProbeContext \<Rightarrow> scan_state \<Rightarrow> bool \<Rightarrow> Dict \<Rightarrow> (outcome \<times> scan_state) + (byte list \<times> scan_state)" where
  "scanToPayload ctx st inline objectInfo =
     (case streamCheck st inline of
        (None, st1) \<Rightarrow> Inl (Break, st1)
      | (Some hasStream, st1) \<Rightarrow>
          if \<not> hasStream then Inl (Continue, st1)
          else (case objectInfo ''Length'' of
                  None \<Rightarrow> Inl (Continue, st1)
                | Some Flag \<Rightarrow> Inl (Continue, st1)
                | Some (Str lenVal) \<Rightarrow>
                    if lenVal = [] then Inl (Continue, st1)
                    else (case parseInt lenVal of
                            None \<Rightarrow> Inl (Continue, st1)
                          | Some streamLength \<Rightarrow>
                              if \<not> isFinite streamLength \<or> streamLength < 0 then Inl (Continue, st1)
                              else (let st2 = scan_log ctx st1 (LogStartStream streamLength);
                                        r3 = consumeStreamEol (reader st2)
                                    in case readBytes r3 streamLength of
                                         Inl err \<Rightarrow> Inl (Throw err, st2\<lparr>reader := r3\<rparr>)
                                       | Inr (None, r4) \<Rightarrow> Inl (Break, st2\<lparr>reader := r4\<rparr>)
                                       | Inr (Some rawBytes, r4) \<Rightarrow> Inr (rawBytes, st2\<lparr>reader := r4\<rparr>)))))"

definition scanBody :: "env \<Rightarrow> ProbeContext \<Rightarrow> scan_state \<Rightarrow> outcome \<times> scan_state" where
  "scanBody e ctx st0 =
     (case scanToDictionary ctx st0 of
        Inl ended \<Rightarrow> ended
      | Inr (dt, inline, st) \<Rightarrow>
          (let st1 = scan_log ctx st (LogDictContent (collapseSpaces dt));
               st2 = scan_log ctx st1 (LogStreamKeyword inline);
               objectInfo = parseDictFromRaw dt
           in case dictProbes ctx subtypeProbes dt objectInfo of
                Some hit \<Rightarrow> (Return hit, st2)
              | None \<Rightarrow>
                  (case scanToPayload ctx st2 inline objectInfo of
                     Inl ended \<Rightarrow> ended
                   | Inr (rawBytes, st3) \<Rightarrow> scanStreamText e ctx st3 objectInfo rawBytes)))"

text \<open>
  \<open>while (scannedLines++ < maxScanLines)\<close>: the loop ends when the test fails
  (\<open>BudgetExhausted\<close>), at a \<open>break\<close> (\<open>Broke\<close>), at a \<open>return\<close> or at a \<open>throw\<close>. The
  final value of \<open>scannedLines\<close> is returned with the state.
\<close>

datatype scan_exit = BudgetExhausted | Broke | Returned FileTypeResult | Thrown error

function scanLoop ::
  "env \<Rightarrow> ProbeContext \<Rightarrow> nat \<Rightarrow> nat \<Rightarrow> scan_state \<Rightarrow> scan_exit \<times> nat \<times> scan_state" where
  "scanLoop e ctx maxScanLines scannedLines st =
     (if scannedLines < maxScanLines then
        (case scanBody e ctx st of
           (Continue, st') \<Rightarrow> scanLoop e ctx maxScanLines (scannedLines + 1) st'
         | (Break, st') \<Rightarrow> (Broke, scannedLines + 1, st')
         | (Return hit, st') \<Rightarrow> (Returned hit, scannedLines + 1, st')
         | (Throw err, st') \<Rightarrow> (Thrown err, scannedLines + 1, st'))
      else (BudgetExhausted, scannedLines + 1, st))"
  by pat_completeness auto
termination
  by (relation "measure (\<lambda>(e, ctx, maxScanLines, scannedLines, st). maxScanLines - scannedLines)") auto

declare scanLoop.simps [simp del]

record detect_options =
  opts_debug :: "bool option"
  opts_maxScanLines :: "nat option"

text \<open>
  \<open>_detectPdf\<close>, with \<open>!!opts.debug\<close> and \<open>opts.maxScanLines ?? 50_000\<close>. The result is what the promise settles with (\<open>Inl\<close> a rejection,
  \<open>Inr None\<close> for \<open>undefined\<close>), the tokenizer after the call and the console.
\<close>

definition debugOf :: "detect_options \<Rightarrow> bool" where
  "debugOf opts = (case opts_debug opts of None \<Rightarrow> False | Some d \<Rightarrow> d)"

definition maxScanLinesOf :: "detect_options \<Rightarrow> nat" where
  "maxScanLinesOf opts = (case opts_maxScanLines opts of None \<Rightarrow> 50000 | Some m \<Rightarrow> m)"

definition u_detectPdf ::
  "env \<Rightarrow> tokenizer \<Rightarrow> detect_options \<Rightarrow> (error + FileTypeResult option) \<times> tokenizer \<times> log_event list" where
  "u_detectPdf e tok opts =
     (let dbg = debugOf opts;
          maxScanLines = maxScanLinesOf opts;
          ctx = \<lparr>ctx_debug = dbg\<rparr>;
          hdr = peekPdfHeader tok
      in if \<not> isPdf hdr then (Inr None, tok, [])
         else (let out = console_log dbg
                          (LogHeader (headerOffset hdr) (int (position tok) + headerOffset hdr)) []
               in case (if 0 < headerOffset hdr then skipBytes tok (headerOffset hdr) else (None, tok)) of
                    (Some err, tok1) \<Rightarrow> (Inl err, tok1, out)
                  | (None, tok1) \<Rightarrow>
                      (let rd = new_reader tok1 \<lparr>opt_chunkSize = None, opt_debug = Some dbg\<rparr> out;
                           st = scan_log ctx \<lparr>reader = rd, pendingLine = None, state = 0\<rparr> LogStart
                       in case scanLoop e ctx maxScanLines 0 st of
                            (Returned hit, n, st') \<Rightarrow>
                              (Inr (Some hit), tokenizer (reader st'), console (reader st'))
                          | (Thrown err, n, st') \<Rightarrow>
                              (Inl err, tokenizer (reader st'), console (reader st'))
                          | (ended, n, st') \<Rightarrow>
                              (Inr (Some PDF_TYPE), tokenizer (reader st'),
                               console (reader (scan_log ctx st' LogDone))))))"

definition default_options :: detect_options where
  "default_options = \<lparr>opts_debug = None, opts_maxScanLines = None\<rparr>"

text \<open>\<open>detectPdf.detect\<close>: \<open>_detectPdf\<close> with no options.\<close>

definition detect :: "env \<Rightarrow> tokenizer \<Rightarrow> (error + FileTypeResult option) \<times> tokenizer \<times> log_event list" where
  "detect e tok = u_detectPdf e tok default_options"


text \<open>
  An environment for the concrete examples below: a decompressor that rejects every
  input, the identity as text decoder (which is UTF-8 decoding on ASCII bytes) and a
  parser that emits no event.
\<close>

definition example_env :: env where
  "example_env = \<lparr>decompress = (\<lambda>fmt bytes. None), textDecode = (\<lambda>bytes. bytes), saxParse = (\<lambda>text. [])\<rparr>"

section \<open>The header sniffer finds the signature exactly where it occurs\<close>

lemma indexOfBytes_inner_iff:
  "indexOfBytes_inner hay needle i j \<longleftrightarrow>
     (\<forall>k. j \<le> k \<and> k < length needle \<longrightarrow> i + k < length hay \<and> hay ! (i + k) = needle ! k)"
proof (induction hay needle i j rule: indexOfBytes_inner.induct)
  case (1 hay needle i j)
  show ?case
  proof (cases "j < length needle")
    case False
    then show ?thesis by (subst indexOfBytes_inner.simps) auto
  next
    case True
    show ?thesis
    proof (cases "length hay \<le> i + j \<or> hay ! (i + j) \<noteq> needle ! j")
      case bad: True
      then have "\<not> indexOfBytes_inner hay needle i j"
        using True by (subst indexOfBytes_inner.simps) simp
      moreover have "\<not> (\<forall>k. j \<le> k \<and> k < length needle \<longrightarrow> i + k < length hay \<and> hay ! (i + k) = needle ! k)"
        using bad True by (metis le_refl not_le)
      ultimately show ?thesis by blast
    next
      case good: False
      then have "indexOfBytes_inner hay needle i j = indexOfBytes_inner hay needle i (j + 1)"
        using True by (subst indexOfBytes_inner.simps) simp
      also have "\<dots> \<longleftrightarrow> (\<forall>k. j + 1 \<le> k \<and> k < length needle \<longrightarrow> i + k < length hay \<and> hay ! (i + k) = needle ! k)"
        using "1.IH" [OF True good] .
      also have "\<dots> \<longleftrightarrow> (\<forall>k. j \<le> k \<and> k < length needle \<longrightarrow> i + k < length hay \<and> hay ! (i + k) = needle ! k)"
        using good by (metis Suc_eq_plus1 Suc_leI le_neq_implies_less not_le order.strict_implies_order Suc_leD)
      finally show ?thesis .
    qed
  qed
qed

definition matchAt :: "byte list \<Rightarrow> byte list \<Rightarrow> nat \<Rightarrow> bool" where
  "matchAt hay needle k \<longleftrightarrow> k + length needle \<le> length hay \<and> take (length needle) (drop k hay) = needle"

lemma indexOfBytes_inner_matchAt:
  "i + length needle \<le> length hay \<Longrightarrow> indexOfBytes_inner hay needle i 0 \<longleftrightarrow> matchAt hay needle i"
  unfolding indexOfBytes_inner_iff matchAt_def
  by (auto simp: list_eq_iff_nth_eq)

lemma indexOfBytes_outer_Some:
  "indexOfBytes_outer hay needle i = Some k \<Longrightarrow> i \<le> k \<and> matchAt hay needle k"
proof (induction hay needle i rule: indexOfBytes_outer.induct)
  case (1 hay needle i)
  show ?case
  proof (cases "i + length needle \<le> length hay")
    case False
    with "1.prems" show ?thesis by (subst (asm) indexOfBytes_outer.simps) simp
  next
    case True
    show ?thesis
    proof (cases "indexOfBytes_inner hay needle i 0")
      case m: True
      with True "1.prems" have "k = i" by (subst (asm) indexOfBytes_outer.simps) simp
      with m True show ?thesis by (simp add: indexOfBytes_inner_matchAt)
    next
      case m: False
      with True "1.prems" have "indexOfBytes_outer hay needle (i + 1) = Some k"
        by (subst (asm) indexOfBytes_outer.simps) simp
      from "1.IH" [OF True m this] show ?thesis by simp
    qed
  qed
qed

lemma indexOfBytes_outer_None:
  "indexOfBytes_outer hay needle i = None \<Longrightarrow> i \<le> k \<Longrightarrow> \<not> matchAt hay needle k"
proof (induction hay needle i rule: indexOfBytes_outer.induct)
  case (1 hay needle i)
  show ?case
  proof (cases "i + length needle \<le> length hay")
    case False
    with "1.prems"(2) show ?thesis by (simp add: matchAt_def)
  next
    case True
    show ?thesis
    proof (cases "indexOfBytes_inner hay needle i 0")
      case m: True
      with True "1.prems" show ?thesis by (subst (asm) indexOfBytes_outer.simps) simp
    next
      case m: False
      with True "1.prems" have n: "indexOfBytes_outer hay needle (i + 1) = None"
        by (subst (asm) indexOfBytes_outer.simps) simp
      show ?thesis
      proof (cases "k = i")
        case True
        with m \<open>i + length needle \<le> length hay\<close> show ?thesis
          by (simp add: indexOfBytes_inner_matchAt)
      next
        case False
        with "1.prems"(2) have "i + 1 \<le> k" by simp
        from "1.IH" [OF True m n this] show ?thesis .
      qed
    qed
  qed
qed

lemma sublist_matchAt: "sublist needle hay \<longleftrightarrow> (\<exists>k. matchAt hay needle k)"
proof
  assume "sublist needle hay"
  then obtain ps ss where "hay = ps @ needle @ ss" by (auto simp: sublist_def)
  then have "matchAt hay needle (length ps)" by (simp add: matchAt_def)
  then show "\<exists>k. matchAt hay needle k" ..
next
  assume "\<exists>k. matchAt hay needle k"
  then obtain k where k: "matchAt hay needle k" ..
  then have "hay = take k hay @ needle @ drop (length needle) (drop k hay)"
    unfolding matchAt_def by (metis append_take_drop_id)
  then show "sublist needle hay" unfolding sublist_def by blast
qed

lemma indexOfBytes_None: "needle \<noteq> [] \<Longrightarrow> indexOfBytes hay needle = None \<longleftrightarrow> \<not> sublist needle hay"
  unfolding sublist_matchAt indexOfBytes_def
  using indexOfBytes_outer_None [of hay needle 0] indexOfBytes_outer_Some [of hay needle 0]
  by (cases "indexOfBytes_outer hay needle 0") auto


lemma peekPdfHeader_absent:
  assumes "length (remaining tok) < 5 \<or> \<not> sublist ''%PDF-'' (take 1024 (remaining tok))"
  shows "\<not> isPdf (peekPdfHeader tok)"
proof -
  have "\<not> sublist ''%PDF-'' (take 1024 (remaining tok))"
  proof
    assume s: "sublist ''%PDF-'' (take 1024 (remaining tok))"
    then have "length ''%PDF-'' \<le> length (take 1024 (remaining tok))"
      by (rule sublist_length_le)
    with assms s show False by auto
  qed
  then have "indexOfBytes (take 1024 (remaining tok)) ''%PDF-'' = None"
    by (simp add: indexOfBytes_None)
  then show ?thesis
    by (simp add: peekPdfHeader_def peekBuffer_def Let_def)
qed

text \<open>
  C1. An input whose first 1024 bytes (from the current position) do not hold \<open>%PDF-\<close>,
  in particular an input of fewer than 5 bytes, is answered with \<open>undefined\<close>, whatever
  the options, and the tokenizer after the call is the tokenizer before it: same data,
  same position. Nothing is logged.
\<close>

theorem detect_leaves_non_pdf_untouched:
  assumes "length (remaining tok) < 5 \<or> \<not> sublist ''%PDF-'' (take 1024 (remaining tok))"
  shows "u_detectPdf e tok opts = (Inr None, tok, []) \<and> detect e tok = (Inr None, tok, [])"
  using peekPdfHeader_absent [OF assms] by (simp add: detect_def u_detectPdf_def Let_def)

theorem detect_leaves_non_pdf_untouched_witness:
  "detect example_env \<lparr>data = [CHR 0x00, CHR 0x00, CHR 0x00], position = 0\<rparr>
     = (Inr None, \<lparr>data = [CHR 0x00, CHR 0x00, CHR 0x00], position = 0\<rparr>, [])
   \<and> u_detectPdf example_env \<lparr>data = ''plain text, no signature'', position = 6\<rparr> default_options
     = (Inr None, \<lparr>data = ''plain text, no signature'', position = 6\<rparr>, [])"
proof -
  have a: "length (remaining \<lparr>data = [CHR 0x00, CHR 0x00, CHR 0x00], position = 0\<rparr>) < 5
           \<or> \<not> sublist ''%PDF-'' (take 1024 (remaining \<lparr>data = [CHR 0x00, CHR 0x00, CHR 0x00], position = 0\<rparr>))"
    by (simp add: remaining_def)
  have b: "length (remaining \<lparr>data = ''plain text, no signature'', position = 6\<rparr>) < 5
           \<or> \<not> sublist ''%PDF-'' (take 1024 (remaining \<lparr>data = ''plain text, no signature'', position = 6\<rparr>))"
    by (simp add: remaining_def sublist_code)
  show ?thesis
    using detect_leaves_non_pdf_untouched [OF a, of example_env default_options]
          detect_leaves_non_pdf_untouched [OF b, of example_env default_options]
    by simp
qed


section \<open>The reader hands out the lines of the input\<close>

text \<open>
  The invariant of the reader: the cursor is inside the buffer, a chunk holds at least
  one byte, and \<open>eof\<close> is only set once the source is drained.
\<close>

definition reader_ok :: "reader \<Rightarrow> bool" where
  "reader_ok r \<longleftrightarrow>
     pos r \<le> length (buf r) \<and> 0 < chunkSize r \<and> (eof r \<longrightarrow> remaining (tokenizer r) = [])"

text \<open>
  What one \<open>readLine\<close> does to the unread bytes: nothing at the end; up to the first
  line feed, less one carriage return before it; or all of them when no line feed is left.
\<close>

definition nextLine :: "byte list \<Rightarrow> string option \<times> byte list" where
  "nextLine bs =
     (if bs = [] then (None, [])
      else if CHR 0x0A \<in> set bs
        then (Some (strip_cr (takeWhile (\<lambda>b. b \<noteq> CHR 0x0A) bs)),
              tl (dropWhile (\<lambda>b. b \<noteq> CHR 0x0A) bs))
        else (Some bs, []))"

lemma reader_ok_fill: "reader_ok r \<Longrightarrow> reader_ok (fill r minBytes)"
proof (induction r rule: fill_cases [where minBytes = minBytes])
  case (stop r)
  then show ?case by simp
next
  case (at_eof r)
  then show ?case by (auto simp: reader_ok_def)
next
  case (more r)
  then show ?case by (auto simp: reader_ok_def)
qed


lemma readLine_refines:
  "reader_ok r \<Longrightarrow>
   fst (readLine r) = fst (nextLine (unreadBytes r))
   \<and> unreadBytes (snd (readLine r)) = snd (nextLine (unreadBytes r))
   \<and> reader_ok (snd (readLine r))"
proof (induction r rule: readLine_cases)
  case (found r idx)
  let ?d = "drop (pos r) (buf r)"
  let ?U = "unreadBytes r"
  note i = bufIndexOf_Some [OF found(1)]
  have lf: "CHR 0x0A \<in> set ?d"
    using i(1,2,3) by (metis found.hyps bufIndexOf_None option.distinct(1))
  then have inU: "CHR 0x0A \<in> set ?U" by (simp add: unreadBytes_def)
  have tw: "takeWhile (\<lambda>b. b \<noteq> CHR 0x0A) ?U = take (idx - pos r) ?d"
    using lf i(4) by (simp add: unreadBytes_def takeWhile_append1 takeWhile_append)
      (metis (mono_tags, lifting) takeWhile_append1 takeWhile_eq_all_conv)
  have dw: "dropWhile (\<lambda>b. b \<noteq> CHR 0x0A) ?U = drop (idx - pos r) ?d @ remaining (tokenizer r)"
  proof -
    have "dropWhile (\<lambda>b. b \<noteq> CHR 0x0A) ?U = drop (length (takeWhile (\<lambda>b. b \<noteq> CHR 0x0A) ?U)) ?U"
      by (rule dropWhile_eq_drop)
    also have "length (takeWhile (\<lambda>b. b \<noteq> CHR 0x0A) ?U) = idx - pos r"
      using tw i(1,2) by simp
    finally show ?thesis using i(1,2) by (simp add: unreadBytes_def)
  qed
  have "drop (idx - pos r) ?d = drop idx (buf r)"
    using i(1) by simp
  also have "\<dots> = buf r ! idx # drop (Suc idx) (buf r)"
    using i(2) by (simp add: Cons_nth_drop_Suc)
  finally have tl: "tl (dropWhile (\<lambda>b. b \<noteq> CHR 0x0A) ?U) = drop (Suc idx) (buf r) @ remaining (tokenizer r)"
    using dw by simp
  have U: "?U \<noteq> []" using inU by auto
  show ?case
    using found(2) i(2) inU U tw tl
    by (simp add: readLine_found [OF found(1)] nextLine_def subarray_def reader_ok_def unreadBytes_def)
next
  case (at_end r)
  let ?f = "fill r (avail r + 1)"
  let ?U = "unreadBytes r"
  have ok: "reader_ok ?f" using at_end(4) by (rule reader_ok_fill)
  then have rem: "remaining (tokenizer ?f) = []" and p: "pos ?f \<le> length (buf ?f)"
    using at_end(3) by (auto simp: reader_ok_def)
  have Uf: "drop (pos ?f) (buf ?f) = ?U"
    using fill_unreadBytes [of r "avail r + 1"] rem by (simp add: unreadBytes_def)
  then have len: "length ?U = avail r"
    using at_end(2) by (metis avail_def length_drop)
  have pr: "pos r \<le> length (buf r)" using at_end(4) by (simp add: reader_ok_def)
  have "length (drop (pos r) (buf r)) = avail r" by (simp add: avail_def)
  with len have Ud: "?U = drop (pos r) (buf r)"
    by (simp add: unreadBytes_def)
  have nolf: "CHR 0x0A \<notin> set ?U"
    using at_end(1) Ud by (simp add: bufIndexOf_None)
  have e: "avail r = 0 \<longleftrightarrow> ?U = []" using len by auto
  show ?case
    using ok nolf e Uf rem
    by (auto simp: readLine_at_end [OF at_end(1,2,3)] Let_def nextLine_def reader_ok_def unreadBytes_def)
next
  case (again r)
  then show ?case
    using reader_ok_fill [of r "avail r + 1"] by simp
qed


text \<open>The answers of \<open>n\<close> calls of \<open>readLine\<close> in a row (\<open>None\<close> is \<open>null\<close>).\<close>

fun readLines :: "nat \<Rightarrow> reader \<Rightarrow> string option list \<times> reader" where
  "readLines 0 r = ([], r)"
| "readLines (Suc n) r =
     (case readLine r of
        (l, r') \<Rightarrow> (case readLines n r' of (ls, r'') \<Rightarrow> (l # ls, r'')))"

text \<open>
  The lines as the specification words them: the bytes are cut at each line terminator,
  where a terminator is \<open>\n\<close> or \<open>\r\n\<close> (a carriage return not followed by a line feed
  is an ordinary byte); the terminators are dropped; bytes left after the last terminator
  are one more line.
\<close>

fun spec_lines_from :: "byte list \<Rightarrow> byte list \<Rightarrow> string list" where
  "spec_lines_from cur [] = (if cur = [] then [] else [cur])"
| "spec_lines_from cur [b] = (if b = CHR 0x0A then [cur] else [cur @ [b]])"
| "spec_lines_from cur (b # c # bs) =
     (if b = CHR 0x0A then cur # spec_lines_from [] (c # bs)
      else if b = CHR 0x0D \<and> c = CHR 0x0A then cur # spec_lines_from [] bs
      else spec_lines_from (cur @ [b]) (c # bs))"

definition spec_lines :: "byte list \<Rightarrow> string list" where
  "spec_lines bs = spec_lines_from [] bs"

lemma nextLine_shorter: "nextLine bs = (Some l, rest) \<Longrightarrow> length rest < length bs"
proof -
  assume a: "nextLine bs = (Some l, rest)"
  let ?d = "dropWhile (\<lambda>b. b \<noteq> CHR 0x0A) bs"
  show ?thesis
  proof (cases "CHR 0x0A \<in> set bs")
    case True
    then have "?d \<noteq> []" by (simp add: dropWhile_eq_Nil_conv)
    then have "length (tl ?d) < length ?d" by (cases ?d) simp_all
    also have "\<dots> \<le> length bs" by (rule length_dropWhile_le)
    finally show ?thesis using a True by (auto simp: nextLine_def split: if_splits)
  next
    case False
    with a show ?thesis by (auto simp: nextLine_def split: if_splits)
  qed
qed

function allLines :: "byte list \<Rightarrow> string list" where
  "allLines bs = (case nextLine bs of (None, rest) \<Rightarrow> [] | (Some l, rest) \<Rightarrow> l # allLines rest)"
  by pat_completeness auto
termination
  by (relation "measure length") (auto simp: nextLine_shorter [OF sym])

declare allLines.simps [simp del]

lemma strip_cr_snoc: "strip_cr (xs @ [CHR 0x0D]) = xs"
  by (simp add: strip_cr_def)

lemma strip_cr_id: "xs = [] \<or> last xs \<noteq> CHR 0x0D \<Longrightarrow> strip_cr xs = xs"
  by (auto simp: strip_cr_def last_conv_nth)

lemma allLines_Nil: "allLines [] = []"
  by (subst allLines.simps) (simp add: nextLine_def)

lemma allLines_no_lf: "CHR 0x0A \<notin> set bs \<Longrightarrow> bs \<noteq> [] \<Longrightarrow> allLines bs = [bs]"
  by (subst allLines.simps) (simp add: nextLine_def allLines_Nil)

lemma allLines_lf:
  "CHR 0x0A \<notin> set cur \<Longrightarrow> allLines (cur @ CHR 0x0A # bs) = strip_cr cur # allLines bs"
  by (subst allLines.simps) (simp add: nextLine_def takeWhile_append dropWhile_append)

lemma spec_lines_from_allLines:
  "CHR 0x0A \<notin> set cur \<Longrightarrow>
   \<not> (cur \<noteq> [] \<and> last cur = CHR 0x0D \<and> bs \<noteq> [] \<and> hd bs = CHR 0x0A) \<Longrightarrow>
   spec_lines_from cur bs = allLines (cur @ bs)"
proof (induction cur bs rule: spec_lines_from.induct)
  case (1 cur)
  then show ?case by (simp add: allLines_Nil allLines_no_lf)
next
  case (2 cur b)
  show ?case
  proof (cases "b = CHR 0x0A")
    case True
    with 2 show ?thesis by (simp add: allLines_lf allLines_Nil strip_cr_id)
  next
    case False
    with 2 show ?thesis by (simp add: allLines_no_lf)
  qed
next
  case (3 cur b c bs)
  show ?case
  proof (cases "b = CHR 0x0A")
    case True
    with 3 show ?thesis by (simp add: allLines_lf strip_cr_id)
  next
    case nl: False
    show ?thesis
    proof (cases "b = CHR 0x0D \<and> c = CHR 0x0A")
      case True
      have "allLines ((cur @ [CHR 0x0D]) @ CHR 0x0A # bs) = strip_cr (cur @ [CHR 0x0D]) # allLines bs"
        using "3.prems"(1) by (intro allLines_lf) simp
      with True nl 3 show ?thesis by (simp add: strip_cr_snoc)
    next
      case False
      with nl 3 show ?thesis by auto
    qed
  qed
qed

lemma spec_lines_allLines: "spec_lines bs = allLines bs"
  by (simp add: spec_lines_def spec_lines_from_allLines)

lemma take_pad: "n \<le> m \<Longrightarrow> take n (xs @ replicate m y) = take n (xs @ replicate n y)"
  by (auto simp: min_def)

lemma readLines_allLines:
  "reader_ok r \<Longrightarrow>
   fst (readLines n r) = take n (map Some (allLines (unreadBytes r)) @ replicate n None)"
proof (induction n arbitrary: r)
  case 0
  then show ?case by simp
next
  case (Suc n)
  obtain l r' where rl: "readLine r = (l, r')" by (cases "readLine r")
  from readLine_refines [OF Suc.prems] rl
  have l: "l = fst (nextLine (unreadBytes r))"
    and u: "unreadBytes r' = snd (nextLine (unreadBytes r))"
    and ok: "reader_ok r'" by simp_all
  obtain ls r'' where rls: "readLines n r' = (ls, r'')" by (cases "readLines n r'")
  from Suc.IH [OF ok] rls
  have ls: "ls = take n (map Some (allLines (unreadBytes r')) @ replicate n None)" by simp
  show ?case
  proof (cases "fst (nextLine (unreadBytes r))")
    case None
    then have e: "unreadBytes r = []" by (auto simp: nextLine_def split: if_splits)
    then have "unreadBytes r' = []" using u by (simp add: nextLine_def)
    then have "ls = replicate n None" using ls by (simp add: allLines_Nil)
    moreover have "l = None" using l None by simp
    ultimately show ?thesis using rl rls e by (simp add: allLines_Nil)
  next
    case (Some x)
    then have "allLines (unreadBytes r) = x # allLines (unreadBytes r')"
      using u by (subst allLines.simps) (auto split: prod.splits)
    moreover have "l = Some x" using l Some by simp
    moreover have "take n (map Some (allLines (unreadBytes r')) @ replicate (Suc n) None)
                   = take n (map Some (allLines (unreadBytes r')) @ replicate n None)"
      by (rule take_pad) simp
    ultimately show ?thesis using rl rls ls by (simp del: replicate_Suc)
  qed
qed

text \<open>
  C8. On a reader whose chunk size is not 0 (the default is 64 KiB), the answers of any
  number \<open>n\<close> of calls of \<open>readLine\<close> are the lines of the unread input in order, each
  without its terminator \<open>\n\<close> or \<open>\r\n\<close>, the unterminated rest once as the last line,
  and \<open>null\<close> from then on.
\<close>

theorem readLine_returns_the_lines:
  assumes "opt_chunkSize opts \<noteq> Some 0"
  shows "fst (readLines n (new_reader tok opts out))
         = take n (map Some (spec_lines (remaining tok)) @ replicate n None)"
proof -
  have "reader_ok (new_reader tok opts out)"
    using assms by (auto simp: reader_ok_def new_reader_def split: option.splits)
  then show ?thesis
    by (simp add: readLines_allLines spec_lines_allLines) (simp add: unreadBytes_def new_reader_def)
qed

theorem readLine_returns_the_lines_witness:
  "opt_chunkSize \<lparr>opt_chunkSize = Some 4, opt_debug = None\<rparr> \<noteq> Some 0
   \<and> fst (readLines 6 (new_reader
              \<lparr>data = ''xx'' @ ''ab'' @ [CHR 0x0D, CHR 0x0A] @ ''c'' @ [CHR 0x0D] @ ''d'' @ [CHR 0x0A, CHR 0x0A] @ ''tail'',
               position = 2\<rparr>
              \<lparr>opt_chunkSize = Some 4, opt_debug = None\<rparr> []))
     = [Some ''ab'', Some (''c'' @ [CHR 0x0D] @ ''d''), Some [], Some ''tail'', None, None]"
proof -
  have c: "opt_chunkSize \<lparr>opt_chunkSize = Some 4, opt_debug = None\<rparr> \<noteq> Some 0" by simp
  show ?thesis
    using readLine_returns_the_lines [OF c, of 6
        "\<lparr>data = ''xx'' @ ''ab'' @ [CHR 0x0D, CHR 0x0A] @ ''c'' @ [CHR 0x0D] @ ''d'' @ [CHR 0x0A, CHR 0x0A] @ ''tail'', position = 2\<rparr>" "[]"]
    by (simp add: spec_lines_def remaining_def numeral_eq_Suc)
qed


section \<open>Passes, checkpoints and how a run ends\<close>

text \<open>
  Names for the places of a run that the statements below speak about: the state in which
  the loop starts, the state in which pass \<open>k + 1\<close> starts when the \<open>k\<close> passes before it
  all ended in \<open>continue\<close>, and how the loop ends with the final \<open>scannedLines\<close>.
\<close>

definition ctxOf :: "detect_options \<Rightarrow> ProbeContext" where
  "ctxOf opts = \<lparr>ctx_debug = debugOf opts\<rparr>"

definition scanStart :: "tokenizer \<Rightarrow> detect_options \<Rightarrow> scan_state option" where
  "scanStart tok opts =
     (let hdr = peekPdfHeader tok
      in if \<not> isPdf hdr then None
         else (case (if 0 < headerOffset hdr then skipBytes tok (headerOffset hdr) else (None, tok)) of
                 (Some err, tok1) \<Rightarrow> None
               | (None, tok1) \<Rightarrow>
                   Some (scan_log (ctxOf opts)
                          \<lparr>reader = new_reader tok1 \<lparr>opt_chunkSize = None, opt_debug = Some (debugOf opts)\<rparr>
                                      (console_log (debugOf opts)
                                         (LogHeader (headerOffset hdr) (int (position tok) + headerOffset hdr)) []),
                           pendingLine = None, state = 0\<rparr> LogStart)))"

fun scanSteps :: "env \<Rightarrow> ProbeContext \<Rightarrow> nat \<Rightarrow> scan_state \<Rightarrow> scan_state option" where
  "scanSteps e ctx 0 st = Some st"
| "scanSteps e ctx (Suc k) st =
     (case scanBody e ctx st of (Continue, st') \<Rightarrow> scanSteps e ctx k st' | _ \<Rightarrow> None)"

definition scanReaches :: "env \<Rightarrow> tokenizer \<Rightarrow> detect_options \<Rightarrow> nat \<Rightarrow> scan_state option" where
  "scanReaches e tok opts k =
     (case scanStart tok opts of
        None \<Rightarrow> None
      | Some st0 \<Rightarrow> if k < maxScanLinesOf opts then scanSteps e (ctxOf opts) k st0 else None)"

lemma scanLoop_budget:
  "\<not> n < m \<Longrightarrow> scanLoop e ctx m n st = (BudgetExhausted, n + 1, st)"
  by (subst scanLoop.simps) simp

lemma scanLoop_pass:
  "n < m \<Longrightarrow>
   scanLoop e ctx m n st =
     (case scanBody e ctx st of
        (Continue, st') \<Rightarrow> scanLoop e ctx m (n + 1) st'
      | (Break, st') \<Rightarrow> (Broke, n + 1, st')
      | (Return hit, st') \<Rightarrow> (Returned hit, n + 1, st')
      | (Throw err, st') \<Rightarrow> (Thrown err, n + 1, st'))"
  by (subst scanLoop.simps) simp

lemma scanLoop_steps:
  "scanSteps e ctx k st = Some st' \<Longrightarrow> n + k \<le> m \<Longrightarrow>
   scanLoop e ctx m n st = scanLoop e ctx m (n + k) st'"
proof (induction k arbitrary: n st)
  case 0
  then show ?case by simp
next
  case (Suc k)
  from Suc.prems(1) obtain st1 where b: "scanBody e ctx st = (Continue, st1)"
    and s: "scanSteps e ctx k st1 = Some st'"
    by (auto split: prod.splits outcome.splits)
  have "n < m" using Suc.prems(2) by simp
  then have "scanLoop e ctx m n st = scanLoop e ctx m (n + 1) st1"
    using b by (simp add: scanLoop_pass)
  also have "\<dots> = scanLoop e ctx m (n + 1 + k) st'"
    using Suc.IH [OF s] Suc.prems(2) by simp
  finally show ?case by simp
qed

lemma scanLoop_bound: "n \<le> m \<Longrightarrow> fst (snd (scanLoop e ctx m n st)) \<le> m + 1"
proof (induction e ctx m n st rule: scanLoop.induct)
  case (1 e ctx m n st)
  show ?case
  proof (cases "n < m")
    case False
    with "1.prems" show ?thesis by (simp add: scanLoop_budget)
  next
    case True
    obtain oc st' where b: "scanBody e ctx st = (oc, st')" by (cases "scanBody e ctx st")
    show ?thesis
    proof (cases oc)
      case Continue
      with "1.IH" [OF True b [symmetric]] True b show ?thesis
        by (simp add: scanLoop_pass)
    qed (use True b in \<open>simp_all add: scanLoop_pass\<close>)
  qed
qed

lemma u_detectPdf_started:
  "scanStart tok opts = Some st0 \<Longrightarrow>
   u_detectPdf e tok opts =
     (case scanLoop e (ctxOf opts) (maxScanLinesOf opts) 0 st0 of
        (Returned hit, n, st') \<Rightarrow> (Inr (Some hit), tokenizer (reader st'), console (reader st'))
      | (Thrown err, n, st') \<Rightarrow> (Inl err, tokenizer (reader st'), console (reader st'))
      | (ended, n, st') \<Rightarrow>
          (Inr (Some PDF_TYPE), tokenizer (reader st'),
           console (reader (scan_log (ctxOf opts) st' LogDone))))"
  by (auto simp: scanStart_def u_detectPdf_def ctxOf_def Let_def split: if_splits prod.splits option.splits scan_exit.splits)


text \<open>
  What a pass that starts in \<open>st\<close> hands to each checkpoint, if it gets there: the
  dictionary text and dictionary for the dictionary probes, the dictionary and payload
  for \<open>decodeStreamBytes\<close>, the decoded text for the stream probes, and the events of
  the XML parser for the XmlHandler.
\<close>

definition passDictionary ::
  "ProbeContext \<Rightarrow> scan_state \<Rightarrow> (string \<times> Dict \<times> bool \<times> scan_state) option" where
  "passDictionary ctx st =
     (case scanToDictionary ctx st of
        Inl ended \<Rightarrow> None
      | Inr (dt, inline, st1) \<Rightarrow>
          Some (dt, parseDictFromRaw dt, inline,
                scan_log ctx (scan_log ctx st1 (LogDictContent (collapseSpaces dt))) (LogStreamKeyword inline)))"

definition passPayload ::
  "ProbeContext \<Rightarrow> scan_state \<Rightarrow> (Dict \<times> byte list \<times> scan_state) option" where
  "passPayload ctx st =
     (case passDictionary ctx st of
        None \<Rightarrow> None
      | Some (dt, objectInfo, inline, st2) \<Rightarrow>
          (case dictProbes ctx subtypeProbes dt objectInfo of
             Some hit \<Rightarrow> None
           | None \<Rightarrow>
               (case scanToPayload ctx st2 inline objectInfo of
                  Inl ended \<Rightarrow> None
                | Inr (rawBytes, st3) \<Rightarrow> Some (objectInfo, rawBytes, st3))))"

definition passStreamText ::
  "env \<Rightarrow> ProbeContext \<Rightarrow> scan_state \<Rightarrow> (string \<times> Dict \<times> scan_state) option" where
  "passStreamText e ctx st =
     (case passPayload ctx st of
        None \<Rightarrow> None
      | Some (objectInfo, rawBytes, st3) \<Rightarrow>
          (case decodeStreamBytes e objectInfo rawBytes of
             Inl err \<Rightarrow> None
           | Inr decodedBytes \<Rightarrow> Some (textDecode e decodedBytes, objectInfo, st3)))"

definition passXmp :: "env \<Rightarrow> ProbeContext \<Rightarrow> scan_state \<Rightarrow> sax_event list option" where
  "passXmp e ctx st =
     (case passStreamText e ctx st of
        None \<Rightarrow> None
      | Some (streamText, objectInfo, st3) \<Rightarrow>
          (case streamProbes ctx subtypeProbes streamText objectInfo of
             Some hit \<Rightarrow> None
           | None \<Rightarrow>
               if looksLikeXmp objectInfo \<and> length creatorToolListeners \<noteq> 0
               then Some (saxParse e streamText) else None))"


lemma str_includes_iff: "str_includes s needle \<longleftrightarrow> sublist needle s"
  by (induction s) (auto simp: sublist_Cons_right)

lemma dictProbes_illustrator [simp]:
  "dictProbes ctx subtypeProbes dt objectInfo = illustrator_onDict ctx dt objectInfo"
  by (simp add: subtypeProbes_def createIllustratorProbe_def split: option.splits)

lemma streamProbes_illustrator [simp]:
  "streamProbes ctx subtypeProbes text objectInfo = illustrator_onStreamText ctx text objectInfo"
  by (simp add: subtypeProbes_def createIllustratorProbe_def split: option.splits)

lemma creatorToolListeners_illustrator: "creatorToolListeners = [illustrator_onCreatorTool]"
  by (simp add: creatorToolListeners_def subtypeProbes_def createIllustratorProbe_def List.map_filter_simps)

lemma creatorToolHit_illustrator [simp]:
  "creatorToolHit ctx creatorToolListeners v = illustrator_onCreatorTool ctx v"
  by (simp add: creatorToolListeners_illustrator split: option.splits)


lemma scanBody_payload:
  "passPayload ctx st = Some (objectInfo, rawBytes, st3) \<Longrightarrow>
   scanBody e ctx st = scanStreamText e ctx st3 objectInfo rawBytes"
  by (auto simp: passPayload_def passDictionary_def scanBody_def Let_def
           split: sum.splits prod.splits option.splits)





definition scanRun :: "env \<Rightarrow> tokenizer \<Rightarrow> detect_options \<Rightarrow> (scan_exit \<times> nat) option" where
  "scanRun e tok opts =
     (case scanStart tok opts of
        None \<Rightarrow> None
      | Some st0 \<Rightarrow>
          (case scanLoop e (ctxOf opts) (maxScanLinesOf opts) 0 st0 of (ex, n, st') \<Rightarrow> Some (ex, n)))"

lemma scanRun_at_pass:
  assumes "scanReaches e tok opts k = Some st"
  shows "scanRun e tok opts =
           (case scanLoop e (ctxOf opts) (maxScanLinesOf opts) k st of (ex, n, st') \<Rightarrow> Some (ex, n))"
    and "k < maxScanLinesOf opts"
    and "\<exists>st0. scanStart tok opts = Some st0
           \<and> scanLoop e (ctxOf opts) (maxScanLinesOf opts) 0 st0
             = scanLoop e (ctxOf opts) (maxScanLinesOf opts) k st"
proof -
  from assms obtain st0 where s0: "scanStart tok opts = Some st0"
    and k: "k < maxScanLinesOf opts" and st: "scanSteps e (ctxOf opts) k st0 = Some st"
    by (auto simp: scanReaches_def split: option.splits if_splits)
  have l: "scanLoop e (ctxOf opts) (maxScanLinesOf opts) 0 st0
        = scanLoop e (ctxOf opts) (maxScanLinesOf opts) k st"
    using scanLoop_steps [OF st, of 0 "maxScanLinesOf opts"] k by simp
  show "k < maxScanLinesOf opts" by (rule k)
  show "scanRun e tok opts =
           (case scanLoop e (ctxOf opts) (maxScanLinesOf opts) k st of (ex, n, st') \<Rightarrow> Some (ex, n))"
    using s0 l by (simp add: scanRun_def)
  show "\<exists>st0. scanStart tok opts = Some st0
           \<and> scanLoop e (ctxOf opts) (maxScanLinesOf opts) 0 st0
             = scanLoop e (ctxOf opts) (maxScanLinesOf opts) k st"
    using s0 l by blast
qed


lemma detect_throws_at_pass:
  assumes "scanReaches e tok opts k = Some st"
    and "fst (scanBody e (ctxOf opts) st) = Throw err"
  shows "fst (u_detectPdf e tok opts) = Inl err"
    and "scanRun e tok opts = Some (Thrown err, k + 1)"
proof -
  note r = scanRun_at_pass [OF assms(1)]
  obtain st' where b: "scanBody e (ctxOf opts) st = (Throw err, st')"
    using assms(2) by (cases "scanBody e (ctxOf opts) st") auto
  have l: "scanLoop e (ctxOf opts) (maxScanLinesOf opts) k st = (Thrown err, k + 1, st')"
    using r(2) b by (simp add: scanLoop_pass)
  show "scanRun e tok opts = Some (Thrown err, k + 1)"
    using r(1) l by simp
  from r(3) obtain st0 where "scanStart tok opts = Some st0"
    and "scanLoop e (ctxOf opts) (maxScanLinesOf opts) 0 st0 = (Thrown err, k + 1, st')"
    using l by auto
  then show "fst (u_detectPdf e tok opts) = Inl err"
    by (simp add: u_detectPdf_started)
qed

lemma decodeStreamBytes_flate_only:
  assumes "normalizeFilters (objectInfo ''Filter'') = [''FlateDecode'']"
  shows "decodeStreamBytes e objectInfo rawBytes = inflateFlateDecode e rawBytes"
  using assms by (simp add: decodeStreamBytes_def Let_def split: sum.splits)

text \<open>
  C5. When a pass of the loop (pass \<open>k + 1\<close>, reached within the budget) reads a stream
  whose filter chain is \<open>FlateDecode\<close> alone and the payload is rejected both as zlib
  data and as raw deflate data, \<open>decodeStreamBytes\<close> fails with the error of the second
  attempt instead of returning the raw bytes, the loop ends in that pass with the thrown
  error, and the call of \<open>_detectPdf\<close> is rejected with it.
\<close>

theorem flate_failure_is_fatal:
  assumes "scanReaches e tok opts k = Some st"
    and "passPayload (ctxOf opts) st = Some (objectInfo, rawBytes, st3)"
    and "normalizeFilters (objectInfo ''Filter'') = [''FlateDecode'']"
    and "decompress e Deflate rawBytes = None"
    and "decompress e DeflateRaw rawBytes = None"
  shows "decodeStreamBytes e objectInfo rawBytes = Inl (InflateError DeflateRaw)
         \<and> fst (u_detectPdf e tok opts) = Inl (InflateError DeflateRaw)
         \<and> scanRun e tok opts = Some (Thrown (InflateError DeflateRaw), k + 1)"
proof -
  have d: "decodeStreamBytes e objectInfo rawBytes = Inl (InflateError DeflateRaw)"
    using assms(4,5)
    using decodeStreamBytes_flate_only [of objectInfo e rawBytes] assms(3)
    by (simp add: inflateFlateDecode_def inflateWithFormat_def)
  then have "fst (scanBody e (ctxOf opts) st) = Throw (InflateError DeflateRaw)"
    by (simp add: scanBody_payload [OF assms(2)] scanStreamText_def)
  from detect_throws_at_pass [OF assms(1) this] d show ?thesis by simp
qed

lemma scanSteps_numeral:
  "scanSteps e ctx (numeral n) st =
     (case scanBody e ctx st of (Continue, st') \<Rightarrow> scanSteps e ctx (pred_numeral n) st' | _ \<Rightarrow> None)"
  by (simp add: numeral_eq_Suc)

text \<open>The rewrite rules that evaluate the model on a concrete input.\<close>

lemmas reader_eval =
  new_reader_def fill.simps readLine.simps bufIndexOf_def subarray_def avail_def compactBuffer_def
  peekMayBeLess_def peekBuffer_def remaining_def readMayBeLess_def readBuffer_def fill_eof_def
  reader_log_def getPosition_def readBytes_def consumeStreamEol_def Let_def

lemmas string_eval =
  isSpace_def isDigit_def isWordChar_def isValueChar_def trim_def startsWith_def endsWith_def
  strIndexOf_def slice_def OBJ_REGEX_exec_def valueGroup_def parseDictFromRaw_def
  parseDict_loop.simps setKey_def parseInt_def digitsValue_def isFinite_def filterNames_def
  normalizeFilters_def toLowerCase_def valueIncludes_def char_of_def bit_Suc_0_iff

lemmas scan_eval =
  scanReaches_def scanStart_def scanRun_def ctxOf_def debugOf_def maxScanLinesOf_def default_options_def
  peekPdfHeader_def indexOfBytes_def indexOfBytes_outer.simps indexOfBytes_inner.simps
  skipBytes_def skipBytes_loop.simps scan_log_def console_log_def scan_readLine_def
  scanToDictionary_def streamCheck_def scanToPayload_def scanBody_def scanStreamText_def
  readDictionaryBlock_def readDictionaryBlock_loop.simps looksLikeXmp_def
  passDictionary_def passPayload_def passStreamText_def passXmp_def
  illustrator_onDict_def illustrator_onStreamText_def illustrator_onCreatorTool_def
  decodeStreamBytes_def inflateFlateDecode_def inflateWithFormat_def
  detect_def u_detectPdf_def scanLoop.simps PDF_TYPE_def AI_TYPE_def example_env_def

lemmas eval_simps = scan_eval reader_eval string_eval scanSteps_numeral

text \<open>
  A file with one object whose stream of 3 bytes is declared as \<open>FlateDecode\<close>.
\<close>

definition flate_example :: tokenizer where
  "flate_example =
     \<lparr>data = ''%PDF-1.4'' @ [CHR 0x0A] @ ''1 0 obj'' @ [CHR 0x0A]
             @ ''<< /Length 3 /Filter FlateDecode >>'' @ [CHR 0x0A] @ ''stream'' @ [CHR 0x0A]
             @ ''abc'' @ [CHR 0x0A] @ ''endstream'' @ [CHR 0x0A] @ ''endobj'' @ [CHR 0x0A],
      position = 0\<rparr>"

theorem flate_failure_is_fatal_witness:
  "scanReaches example_env flate_example default_options 2 \<noteq> None
   \<and> map_option (\<lambda>(objectInfo, rawBytes, st3). (normalizeFilters (objectInfo ''Filter''), rawBytes))
        (passPayload (ctxOf default_options) (the (scanReaches example_env flate_example default_options 2)))
       = Some ([''FlateDecode''], ''abc'')
   \<and> decompress example_env Deflate ''abc'' = None
   \<and> decompress example_env DeflateRaw ''abc'' = None
   \<and> fst (detect example_env flate_example) = Inl (InflateError DeflateRaw)"
proof -
  let ?st = "the (scanReaches example_env flate_example default_options 2)"
  have r: "scanReaches example_env flate_example default_options 2 \<noteq> None"
    by (simp add: flate_example_def eval_simps cong: let_weak_cong split del: if_split)
  have p: "map_option (\<lambda>(objectInfo, rawBytes, st3). (normalizeFilters (objectInfo ''Filter''), rawBytes))
             (passPayload (ctxOf default_options) ?st) = Some ([''FlateDecode''], ''abc'')"
    by (simp add: flate_example_def eval_simps cong: let_weak_cong split del: if_split)
  then obtain objectInfo st3 where
    pp: "passPayload (ctxOf default_options) ?st = Some (objectInfo, ''abc'', st3)"
    and f: "normalizeFilters (objectInfo ''Filter'') = [''FlateDecode'']"
    by (auto split: prod.splits)
  have d: "decompress example_env Deflate ''abc'' = None" "decompress example_env DeflateRaw ''abc'' = None"
    by (simp_all add: example_env_def)
  from r have r': "scanReaches example_env flate_example default_options 2 = Some ?st" by simp
  from flate_failure_is_fatal [OF r' pp f d] r p d show ?thesis
    by (simp add: detect_def)
qed





lemma skipBytes_within:
  assumes "0 < n" and "n \<le> length (remaining tok)" and "n \<le> 64 * 1024"
  shows "skipBytes tok (int n) = (None, tok\<lparr>position := position tok + n\<rparr>)"
proof -
  have r: "readBuffer tok n False = Inr (take n (remaining tok), tok\<lparr>position := position tok + n\<rparr>)"
    using assms(2) by (simp add: readBuffer_def peekBuffer_def Let_def)
  have "skipBytes_loop tok n n = skipBytes_loop (tok\<lparr>position := position tok + n\<rparr>) n 0"
    using assms r by (subst skipBytes_loop.simps) (auto simp: Let_def)
  also have "\<dots> = (None, tok\<lparr>position := position tok + n\<rparr>)"
    by (subst skipBytes_loop.simps) simp
  finally show ?thesis using assms by (simp add: skipBytes_def min_def)
qed

lemma peekPdfHeader_found:
  assumes "sublist ''%PDF-'' (take 1024 (remaining tok))"
  shows "\<exists>idx. peekPdfHeader tok = \<lparr>isPdf = True, headerOffset = int idx\<rparr>
           \<and> idx + 5 \<le> length (take 1024 (remaining tok))"
proof -
  let ?hay = "take 1024 (remaining tok)"
  have "indexOfBytes ?hay ''%PDF-'' \<noteq> None"
    using assms by (simp add: indexOfBytes_None)
  then obtain idx where i: "indexOfBytes ?hay ''%PDF-'' = Some idx" by auto
  then have "matchAt ?hay ''%PDF-'' idx"
    using indexOfBytes_outer_Some [of ?hay "''%PDF-''" 0 idx] by (simp add: indexOfBytes_def)
  then have l: "idx + 5 \<le> length ?hay" by (simp add: matchAt_def)
  then have "length ?hay \<noteq> 0" by linarith
  with i l show ?thesis
    by (simp add: peekPdfHeader_def peekBuffer_def Let_def del: length_take)
qed

lemma scanStart_found:
  assumes "sublist ''%PDF-'' (take 1024 (remaining tok))"
  shows "\<exists>st0. scanStart tok opts = Some st0
           \<and> unreadBytes (reader st0) = drop (nat (headerOffset (peekPdfHeader tok))) (remaining tok)
           \<and> reader_ok (reader st0) \<and> pendingLine st0 = None \<and> state st0 = 0"
proof -
  from peekPdfHeader_found [OF assms] obtain idx where
    h: "peekPdfHeader tok = \<lparr>isPdf = True, headerOffset = int idx\<rparr>"
    and l: "idx + 5 \<le> length (take 1024 (remaining tok))" by blast
  show ?thesis
  proof (cases "idx = 0")
    case True
    with h show ?thesis
      by (simp add: scanStart_def Let_def scan_log_def new_reader_def unreadBytes_def reader_ok_def)
  next
    case False
    have "skipBytes tok (int idx) = (None, tok\<lparr>position := position tok + idx\<rparr>)"
      using False l by (intro skipBytes_within) auto
    with h False show ?thesis
      by (simp add: scanStart_def Let_def scan_log_def new_reader_def unreadBytes_def reader_ok_def
                    remaining_advance)
  qed
qed

lemma detect_by_exit:
  assumes "sublist ''%PDF-'' (take 1024 (remaining tok))"
  shows "\<exists>ex n. scanRun e tok opts = Some (ex, n)
           \<and> fst (u_detectPdf e tok opts)
               = (case ex of Returned hit \<Rightarrow> Inr (Some hit) | Thrown err \<Rightarrow> Inl err
                  | Broke \<Rightarrow> Inr (Some PDF_TYPE) | BudgetExhausted \<Rightarrow> Inr (Some PDF_TYPE))"
proof -
  from scanStart_found [OF assms] obtain st0 where s: "scanStart tok opts = Some st0" by blast
  obtain ex n st' where l: "scanLoop e (ctxOf opts) (maxScanLinesOf opts) 0 st0 = (ex, n, st')"
    by (cases "scanLoop e (ctxOf opts) (maxScanLinesOf opts) 0 st0")
  have "scanRun e tok opts = Some (ex, n)" using s l by (simp add: scanRun_def)
  moreover have "fst (u_detectPdf e tok opts)
               = (case ex of Returned hit \<Rightarrow> Inr (Some hit) | Thrown err \<Rightarrow> Inl err
                  | Broke \<Rightarrow> Inr (Some PDF_TYPE) | BudgetExhausted \<Rightarrow> Inr (Some PDF_TYPE))"
    using l by (simp add: u_detectPdf_started [OF s] split: scan_exit.splits)
  ultimately show ?thesis by blast
qed

text \<open>
  C2. The 8 bytes \<open>%PDF-1.1\<close> are classified as the generic PDF, with any environment.
  In general, once the signature is found in the first 1024 bytes the loop runs, and the
  result is fixed by how the loop ends: the generic PDF when the source is exhausted
  (\<open>Broke\<close>) or the budget is (\<open>BudgetExhausted\<close>), the hit of a probe or the raised
  error otherwise.
\<close>

theorem signature_alone_is_a_pdf:
  "fst (detect e \<lparr>data = ''%PDF-1.1'', position = 0\<rparr>) = Inr (Some PDF_TYPE)
   \<and> (sublist ''%PDF-'' (take 1024 (remaining tok)) \<longrightarrow>
        (\<exists>ex n. scanRun e tok opts = Some (ex, n)
           \<and> fst (u_detectPdf e tok opts)
               = (case ex of Returned hit \<Rightarrow> Inr (Some hit) | Thrown err \<Rightarrow> Inl err
                  | Broke \<Rightarrow> Inr (Some PDF_TYPE) | BudgetExhausted \<Rightarrow> Inr (Some PDF_TYPE))))"
proof
  show "fst (detect e \<lparr>data = ''%PDF-1.1'', position = 0\<rparr>) = Inr (Some PDF_TYPE)"
    by (simp add: eval_simps cong: let_weak_cong split del: if_split)
  show "sublist ''%PDF-'' (take 1024 (remaining tok)) \<longrightarrow>
        (\<exists>ex n. scanRun e tok opts = Some (ex, n)
           \<and> fst (u_detectPdf e tok opts)
               = (case ex of Returned hit \<Rightarrow> Inr (Some hit) | Thrown err \<Rightarrow> Inl err
                  | Broke \<Rightarrow> Inr (Some PDF_TYPE) | BudgetExhausted \<Rightarrow> Inr (Some PDF_TYPE)))"
    using detect_by_exit by blast
qed

theorem signature_alone_is_a_pdf_witness:
  "sublist ''%PDF-'' (take 1024 (remaining \<lparr>data = ''%PDF-1.1'', position = 0\<rparr>))
   \<and> scanRun example_env \<lparr>data = ''%PDF-1.1'', position = 0\<rparr> default_options = Some (Broke, 2)
   \<and> detect example_env \<lparr>data = ''%PDF-1.1'', position = 0\<rparr>
       = (Inr (Some PDF_TYPE), \<lparr>data = ''%PDF-1.1'', position = 8\<rparr>, [])"
proof -
  let ?tok = "\<lparr>data = ''%PDF-1.1'', position = 0\<rparr>"
  have s: "sublist ''%PDF-'' (take 1024 (remaining ?tok))"
    by (simp add: remaining_def sublist_code)
  have r: "scanRun example_env ?tok default_options = Some (Broke, 2)"
    by (simp add: eval_simps cong: let_weak_cong split del: if_split)
  have d: "snd (detect example_env ?tok) = (\<lparr>data = ''%PDF-1.1'', position = 8\<rparr>, [])"
    by (simp add: eval_simps cong: let_weak_cong split del: if_split)
  from signature_alone_is_a_pdf [of example_env ?tok default_options] s r d
  show ?thesis by (simp add: detect_def prod_eq_iff)
qed


text \<open>
  A file whose only stream declares its length as the indirect reference \<open>17 0 R\<close>; the
  17 bytes after the keyword are \<open>Adobe Illustrator\<close>.
\<close>

definition indirect_length_example :: tokenizer where
  "indirect_length_example =
     \<lparr>data = ''%PDF-1.4'' @ [CHR 0x0A] @ ''1 0 obj'' @ [CHR 0x0A]
             @ ''<< /Length 17 0 R >>'' @ [CHR 0x0A] @ ''stream'' @ [CHR 0x0A]
             @ ''Adobe Illustrator'' @ [CHR 0x0A] @ ''endstream'' @ [CHR 0x0A] @ ''endobj'' @ [CHR 0x0A],
      position = 0\<rparr>"

text \<open>
  C7, on the code: \<open>parseInt\<close> reads the object number of the reference \<open>17 0 R\<close> as the
  length, so the third pass reads 17 bytes of payload for the object, and the payload,
  handed to the stream probes, decides the classification.
\<close>

theorem indirect_length_is_read_as_a_literal:
  "parseInt ''17 0 R'' = Some 17
   \<and> map_option (\<lambda>(objectInfo, rawBytes, st3). (objectInfo ''Length'', rawBytes))
        (passPayload (ctxOf default_options)
           (the (scanReaches example_env indirect_length_example default_options 2)))
       = Some (Some (Str ''17 0 R''), ''Adobe Illustrator'')
   \<and> fst (detect example_env indirect_length_example) = Inr (Some AI_TYPE)"
  by (simp add: indirect_length_example_def eval_simps cong: let_weak_cong split del: if_split)

section \<open>Files whose first dictionary or stream holds a marker\<close>

text \<open>
  The statements of this section speak about the bytes of the input. The header sniffer
  answers with the first place of the signature.
\<close>

lemma indexOfBytes_outer_first:
  "indexOfBytes_outer hay needle i = Some k \<Longrightarrow> i \<le> j \<Longrightarrow> j < k \<Longrightarrow> \<not> matchAt hay needle j"
proof (induction hay needle i rule: indexOfBytes_outer.induct)
  case (1 hay needle i)
  show ?case
  proof (cases "i + length needle \<le> length hay")
    case False
    with "1.prems" show ?thesis by (subst (asm) indexOfBytes_outer.simps) simp
  next
    case True
    show ?thesis
    proof (cases "indexOfBytes_inner hay needle i 0")
      case m: True
      with True "1.prems" show ?thesis by (subst (asm) indexOfBytes_outer.simps) simp
    next
      case m: False
      with True "1.prems" have n: "indexOfBytes_outer hay needle (i + 1) = Some k"
        by (subst (asm) indexOfBytes_outer.simps) simp
      show ?thesis
      proof (cases "j = i")
        case True
        with m \<open>i + length needle \<le> length hay\<close> show ?thesis
          by (simp add: indexOfBytes_inner_matchAt)
      next
        case False
        with "1.prems"(2) have "i + 1 \<le> j" by simp
        from "1.IH" [OF True m n this "1.prems"(3)] show ?thesis .
      qed
    qed
  qed
qed

lemma matchAt_sublist: "matchAt hay needle k \<Longrightarrow> sublist needle hay"
  using sublist_matchAt by blast

lemma indexOfBytes_at:
  assumes "needle \<noteq> []" and "\<not> sublist needle (pre @ butlast needle)"
  shows "indexOfBytes (pre @ needle @ rest) needle = Some (length pre)"
proof -
  let ?hay = "pre @ needle @ rest"
  have m: "matchAt ?hay needle (length pre)" by (simp add: matchAt_def)
  then have "indexOfBytes ?hay needle \<noteq> None"
    using assms(1) by (simp add: indexOfBytes_None matchAt_sublist)
  then obtain k where k: "indexOfBytes_outer ?hay needle 0 = Some k"
    using assms(1) by (auto simp: indexOfBytes_def)
  have mk: "matchAt ?hay needle k" using indexOfBytes_outer_Some [OF k] by simp
  have le: "k \<le> length pre"
    using indexOfBytes_outer_first [OF k, of "length pre"] m by (meson le0 not_le)
  have "k = length pre"
  proof (rule ccontr)
    assume "k \<noteq> length pre"
    with le have lt: "k < length pre" by simp
    have h: "?hay = (pre @ butlast needle) @ [last needle] @ rest"
      using assms(1) by simp
    have b: "k + length needle \<le> length (pre @ butlast needle)"
      using lt assms(1) by (cases needle) auto
    from mk have "take (length needle) (drop k ?hay) = needle" by (simp add: matchAt_def)
    then have "take (length needle) (drop k ((pre @ butlast needle) @ [last needle] @ rest)) = needle"
      using h by simp
    then have "take (length needle) (drop k (pre @ butlast needle)) = needle"
      using b by (simp del: append_assoc)
    with b have "matchAt (pre @ butlast needle) needle k" by (simp add: matchAt_def)
    with assms(2) show False using matchAt_sublist by blast
  qed
  with k assms(1) show ?thesis by (simp add: indexOfBytes_def)
qed

lemma take_past:
  "length pre + length sig \<le> n \<Longrightarrow>
   take n (pre @ sig @ rest) = pre @ sig @ take (n - length pre - length sig) rest"
  by simp

lemma peekPdfHeader_at:
  assumes "remaining tok = pre @ ''%PDF-'' @ rest" and "length pre + 5 \<le> 1024"
    and "\<not> sublist ''%PDF-'' (pre @ ''%PDF'')"
  shows "peekPdfHeader tok = \<lparr>isPdf = True, headerOffset = int (length pre)\<rparr>"
proof -
  have t: "take 1024 (remaining tok) = pre @ ''%PDF-'' @ take (1024 - length pre - 5) rest"
    using assms(1,2) take_past [of pre "''%PDF-''" 1024 rest] by simp
  have "indexOfBytes (pre @ ''%PDF-'' @ take (1024 - length pre - 5) rest) ''%PDF-'' = Some (length pre)"
    by (rule indexOfBytes_at) (use assms(3) in simp_all)
  with t show ?thesis
    by (simp add: peekPdfHeader_def peekBuffer_def Let_def del: length_take)
qed

text \<open>
  \<open>scanAt st bs s\<close>: the loop is in state \<open>s\<close> with no line pushed back, and the bytes
  the reader has not handed out are \<open>bs\<close>.
\<close>

definition scanAt :: "scan_state \<Rightarrow> byte list \<Rightarrow> nat \<Rightarrow> bool" where
  "scanAt st bs s \<longleftrightarrow>
     reader_ok (reader st) \<and> unreadBytes (reader st) = bs \<and> pendingLine st = None \<and> state st = s"

lemma scanStart_at:
  assumes "remaining tok = pre @ ''%PDF-'' @ rest" and "length pre + 5 \<le> 1024"
    and "\<not> sublist ''%PDF-'' (pre @ ''%PDF'')"
  shows "\<exists>st0. scanStart tok opts = Some st0 \<and> scanAt st0 (''%PDF-'' @ rest) 0"
proof -
  note h = peekPdfHeader_at [OF assms]
  have s: "sublist ''%PDF-'' (take 1024 (remaining tok))"
  proof -
    have "take 1024 (remaining tok) = pre @ ''%PDF-'' @ take (1024 - length pre - 5) rest"
      using assms(1,2) take_past [of pre "''%PDF-''" 1024 rest] by simp
    then show ?thesis by (metis sublist_appendI)
  qed
  from scanStart_found [OF s, of opts] h assms(1) show ?thesis
    by (auto simp: scanAt_def)
qed


text \<open>
  A file written as lines: a line holds no line feed and does not end in a carriage
  return, a line end is \<open>\n\<close> or \<open>\r\n\<close>, and \<open>unlines eol ls\<close> are the bytes of the
  lines \<open>ls\<close>, each followed by the line end \<open>eol\<close>.
\<close>

definition textLine :: "string \<Rightarrow> bool" where
  "textLine l \<longleftrightarrow> CHR 0x0A \<notin> set l \<and> (l = [] \<or> last l \<noteq> CHR 0x0D)"

definition lineEnd :: "byte list \<Rightarrow> bool" where
  "lineEnd eol \<longleftrightarrow> eol = [CHR 0x0A] \<or> eol = [CHR 0x0D, CHR 0x0A]"

definition unlines :: "byte list \<Rightarrow> string list \<Rightarrow> byte list" where
  "unlines eol ls = concat (map (\<lambda>l. l @ eol) ls)"

lemma unlines_simps [simp]:
  "unlines eol [] = []"
  "unlines eol (l # ls) = l @ eol @ unlines eol ls"
  "unlines eol (ls @ ms) = unlines eol ls @ unlines eol ms"
  by (simp_all add: unlines_def)

lemma nextLine_line:
  assumes "textLine l" and "lineEnd eol"
  shows "nextLine (l @ eol @ rest) = (Some l, rest)"
proof -
  from assms(2) consider "eol = [CHR 0x0A]" | "eol = [CHR 0x0D, CHR 0x0A]"
    by (auto simp: lineEnd_def)
  then show ?thesis
  proof cases
    case 1
    have "nextLine (l @ CHR 0x0A # rest) = (Some (strip_cr l), rest)"
      using assms(1) by (simp add: nextLine_def textLine_def takeWhile_append dropWhile_append)
    moreover have "strip_cr l = l"
      using assms(1) by (intro strip_cr_id) (auto simp: textLine_def)
    ultimately show ?thesis using 1 by simp
  next
    case 2
    have "nextLine ((l @ [CHR 0x0D]) @ CHR 0x0A # rest) = (Some (strip_cr (l @ [CHR 0x0D])), rest)"
      using assms(1) by (simp add: nextLine_def textLine_def takeWhile_append dropWhile_append)
    then show ?thesis using 2 by (simp add: strip_cr_snoc)
  qed
qed

lemma scan_log_fields [simp]:
  "pendingLine (scan_log ctx st ev) = pendingLine st"
  "state (scan_log ctx st ev) = state st"
  "reader_ok (reader (scan_log ctx st ev)) = reader_ok (reader st)"
  "unreadBytes (reader (scan_log ctx st ev)) = unreadBytes (reader st)"
  by (simp_all add: scan_log_def reader_ok_def unreadBytes_def)

lemma scanAt_log [simp]: "scanAt (scan_log ctx st ev) bs s = scanAt st bs s"
  by (simp add: scanAt_def)

lemma scanAt_state [simp]: "scanAt (st\<lparr>state := s'\<rparr>) bs s = (scanAt st bs (state st) \<and> s = s')"
  by (auto simp: scanAt_def)

lemma readLine_line:
  assumes "reader_ok r" and "unreadBytes r = l @ eol @ rest" and "textLine l" and "lineEnd eol"
  shows "\<exists>r'. readLine r = (Some l, r') \<and> reader_ok r' \<and> unreadBytes r' = rest"
proof -
  obtain x r' where rl: "readLine r = (x, r')" by (cases "readLine r")
  from readLine_refines [OF assms(1)] rl assms(2) nextLine_line [OF assms(3,4), of rest]
  show ?thesis by simp
qed

lemma scan_readLine_line:
  assumes "scanAt st (l @ eol @ rest) s" and "textLine l" and "lineEnd eol"
  shows "\<exists>st'. scan_readLine st = (Some l, st') \<and> scanAt st' rest s"
proof -
  from assms(1) have ok: "reader_ok (reader st)" and u: "unreadBytes (reader st) = l @ eol @ rest"
    and p: "pendingLine st = None" and s: "state st = s" by (simp_all add: scanAt_def)
  from readLine_line [OF ok u assms(2,3)] obtain r' where
    "readLine (reader st) = (Some l, r')" "reader_ok r'" "unreadBytes r' = rest" by blast
  with p s show ?thesis by (simp add: scan_readLine_def scanAt_def)
qed

lemma scanBody_root_line:
  assumes "scanAt st (l @ eol @ rest) 0" and "textLine l" and "lineEnd eol"
  shows "\<exists>st'. scanBody e ctx st = (Continue, st')
           \<and> scanAt st' rest (if OBJ_REGEX_exec l = None then 0 else 10)"
proof -
  from scan_readLine_line [OF assms] obtain st1 where
    r: "scan_readLine st = (Some l, st1)" and a: "scanAt st1 rest 0" by blast
  then have s: "state st1 = 0" by (simp add: scanAt_def)
  show ?thesis
  proof (cases "OBJ_REGEX_exec l")
    case None
    with r s a show ?thesis by (simp add: scanBody_def scanToDictionary_def)
  next
    case (Some m)
    obtain m1 m2 where "m = (m1, m2)" by (cases m)
    with Some r s a show ?thesis by (simp add: scanBody_def scanToDictionary_def)
  qed
qed

lemma scanBody_obj_line:
  assumes "scanAt st (l @ eol @ rest) 10" and "textLine l" and "lineEnd eol"
    and "\<not> sublist ''<<'' l" and "trim l \<noteq> ''endobj''"
  shows "\<exists>st'. scanBody e ctx st = (Continue, st') \<and> scanAt st' rest 10"
proof -
  from scan_readLine_line [OF assms(1,2,3)] obtain st1 where
    r: "scan_readLine st = (Some l, st1)" and a: "scanAt st1 rest 10" by blast
  then have s: "state st1 = 10" by (simp add: scanAt_def)
  with r a assms(4,5) show ?thesis
    by (simp add: scanBody_def scanToDictionary_def str_includes_iff)
qed
























































section \<open>Filter chains\<close>

lemma newSet_set [simp]: "set (newSet xs) = set xs"
  by (induction xs rule: newSet.induct) auto

lemma newSet_distinct [simp]: "distinct (newSet xs)"
  by (induction xs rule: newSet.induct) auto












section \<open>What the dictionary parser stores\<close>











section \<open>The line budget\<close>

text \<open>A line without \<open><<\<close> ends its pass in \<open>continue\<close>, in state ROOT and in state OBJ.\<close>

lemma scanBody_plain_line:
  assumes "scanAt st (l @ eol @ rest) s" and "s = 0 \<or> s = 10" and "textLine l" and "lineEnd eol"
    and "\<not> sublist ''<<'' l"
  shows "\<exists>st' s'. scanBody e ctx st = (Continue, st') \<and> scanAt st' rest s' \<and> (s' = 0 \<or> s' = 10)"
proof -
  from assms(2) show ?thesis
  proof
    assume "s = 0"
    with scanBody_root_line [of st l eol rest e ctx] assms obtain st' where
      "scanBody e ctx st = (Continue, st')"
      "scanAt st' rest (if OBJ_REGEX_exec l = None then 0 else 10)" by auto
    then show ?thesis
      by (intro exI [of _ st'] exI [of _ "if OBJ_REGEX_exec l = None then 0 else 10"]) auto
  next
    assume s: "s = 10"
    show ?thesis
    proof (cases "trim l = ''endobj''")
      case False
      with scanBody_obj_line [of st l eol rest e ctx] assms s show ?thesis by auto
    next
      case True
      from scan_readLine_line [OF assms(1,3,4)] obtain st1 where
        r: "scan_readLine st = (Some l, st1)" and a: "scanAt st1 rest s" by blast
      then have "state st1 = 10" using s by (simp add: scanAt_def)
      with r a True s have "scanBody e ctx st = (Continue, (scan_log ctx st1 LogObjToRoot)\<lparr>state := 0\<rparr>)"
        by (simp add: scanBody_def scanToDictionary_def)
      moreover have "scanAt ((scan_log ctx st1 LogObjToRoot)\<lparr>state := 0\<rparr>) rest 0"
        using a by (simp add: scanAt_def)
      ultimately show ?thesis by blast
    qed
  qed
qed

lemma scanSteps_plain_lines:
  assumes "scanAt st (unlines eol ls @ rest) s" and "s = 0 \<or> s = 10"
    and "\<forall>l \<in> set ls. textLine l \<and> \<not> sublist ''<<'' l" and "lineEnd eol"
  shows "\<exists>st' s'. scanSteps e ctx (length ls) st = Some st' \<and> scanAt st' rest s' \<and> (s' = 0 \<or> s' = 10)"
  using assms
proof (induction ls arbitrary: st s)
  case Nil
  then show ?case by auto
next
  case (Cons l ls)
  from Cons.prems(1) have a: "scanAt st (l @ eol @ unlines eol ls @ rest) s" by simp
  from scanBody_plain_line [OF a Cons.prems(2), of e ctx] Cons.prems(3,4) obtain st1 s1 where
    b: "scanBody e ctx st = (Continue, st1)" and a1: "scanAt st1 (unlines eol ls @ rest) s1"
    and s1: "s1 = 0 \<or> s1 = 10" by auto
  from Cons.IH [OF a1 s1] Cons.prems(3,4) obtain st' s' where
    "scanSteps e ctx (length ls) st1 = Some st'" "scanAt st' rest s'" "s' = 0 \<or> s' = 10" by auto
  with b show ?case by auto
qed

lemma scanLoop_exit_count:
  "n0 \<le> m \<Longrightarrow> scanLoop e ctx m n0 st = (ex, n, st') \<Longrightarrow>
   (ex = BudgetExhausted \<and> n = m + 1) \<or> (ex \<noteq> BudgetExhausted \<and> n \<le> m)"
proof (induction e ctx m n0 st rule: scanLoop.induct)
  case (1 e ctx m n0 st)
  show ?case
  proof (cases "n0 < m")
    case False
    with "1.prems" show ?thesis by (simp add: scanLoop_budget)
  next
    case True
    obtain oc st1 where b: "scanBody e ctx st = (oc, st1)" by (cases "scanBody e ctx st")
    show ?thesis
    proof (cases oc)
      case Continue
      with "1.prems"(2) True b have "scanLoop e ctx m (n0 + 1) st1 = (ex, n, st')"
        by (simp add: scanLoop_pass)
      with "1.IH" [OF True b [symmetric] Continue] True show ?thesis by simp
    qed (use True b "1.prems"(2) in \<open>auto simp: scanLoop_pass\<close>)
  qed
qed

text \<open>
  C4. The model of the loop is a total function, so every call returns. For an input
  that holds, from the signature on, at least \<open>maxScanLines\<close> lines without \<open><<\<close>
  (object-start lines \<open>N G obj\<close> are such lines; the line of the signature is the first
  of them), the loop makes \<open>maxScanLines\<close> passes, its test fails, and the result is the
  generic PDF. For every input with the signature: the loop makes at most \<open>maxScanLines\<close>
  passes (\<open>scannedLines\<close>, incremented by every test, ends at most at \<open>maxScanLines + 1\<close>),
  and a loop that ends by its test gives the generic PDF, not an error.
\<close>

theorem budget_ends_the_scan:
  "(remaining tok = pre @ unlines eol ls @ rest
      \<and> length pre + 5 \<le> 1024 \<and> \<not> sublist ''%PDF-'' (pre @ ''%PDF'')
      \<and> ls \<noteq> [] \<and> prefix ''%PDF-'' (hd ls) \<and> lineEnd eol
      \<and> (\<forall>l \<in> set ls. textLine l \<and> \<not> sublist ''<<'' l)
      \<and> maxScanLinesOf opts \<le> length ls
      \<longrightarrow> scanRun e tok opts = Some (BudgetExhausted, maxScanLinesOf opts + 1)
          \<and> fst (u_detectPdf e tok opts) = Inr (Some PDF_TYPE))
   \<and> (scanRun e tok opts = Some (ex, n)
      \<longrightarrow> (ex = BudgetExhausted \<and> n = maxScanLinesOf opts + 1
             \<and> fst (u_detectPdf e tok opts) = Inr (Some PDF_TYPE))
          \<or> (ex \<noteq> BudgetExhausted \<and> n \<le> maxScanLinesOf opts))"
proof (intro conjI impI)
  assume a: "remaining tok = pre @ unlines eol ls @ rest
      \<and> length pre + 5 \<le> 1024 \<and> \<not> sublist ''%PDF-'' (pre @ ''%PDF'')
      \<and> ls \<noteq> [] \<and> prefix ''%PDF-'' (hd ls) \<and> lineEnd eol
      \<and> (\<forall>l \<in> set ls. textLine l \<and> \<not> sublist ''<<'' l)
      \<and> maxScanLinesOf opts \<le> length ls"
  let ?m = "maxScanLinesOf opts"
  let ?ctx = "ctxOf opts"
  from a obtain l0 ls' where ls: "ls = l0 # ls'" by (cases ls) auto
  with a obtain hdr where l0: "l0 = ''%PDF-'' @ hdr" by (auto simp: prefix_def)
  have r: "remaining tok = pre @ ''%PDF-'' @ (hdr @ eol @ unlines eol ls' @ rest)"
    using a ls l0 by simp
  from scanStart_at [OF r, of opts] a obtain st0 where
    s0: "scanStart tok opts = Some st0"
    and a0: "scanAt st0 (''%PDF-'' @ hdr @ eol @ unlines eol ls' @ rest) 0" by auto
  have a00: "scanAt st0 (unlines eol ls @ rest) 0" using a0 ls l0 by simp
  have "unlines eol (take ?m ls) @ (unlines eol (drop ?m ls) @ rest) = unlines eol ls @ rest"
    by (metis append_take_drop_id unlines_simps(3) append.assoc)
  with a00 have a0': "scanAt st0 (unlines eol (take ?m ls) @ (unlines eol (drop ?m ls) @ rest)) 0"
    by (simp only:)
  have "\<forall>l \<in> set (take ?m ls). textLine l \<and> \<not> sublist ''<<'' l"
    using a by (meson in_set_takeD)
  from scanSteps_plain_lines [OF a0' _ this, of e ?ctx] a obtain st' where
    "scanSteps e ?ctx (length (take ?m ls)) st0 = Some st'" by auto
  moreover have "length (take ?m ls) = ?m" using a by simp
  ultimately have k: "scanSteps e ?ctx ?m st0 = Some st'" by (simp only:)
  have "scanLoop e ?ctx ?m 0 st0 = scanLoop e ?ctx ?m (0 + ?m) st'"
    by (rule scanLoop_steps [OF k]) simp
  also have "\<dots> = (BudgetExhausted, ?m + 1, st')" by (simp add: scanLoop_budget)
  finally have l: "scanLoop e ?ctx ?m 0 st0 = (BudgetExhausted, ?m + 1, st')" .
  show "scanRun e tok opts = Some (BudgetExhausted, ?m + 1)"
    using s0 l by (simp add: scanRun_def)
  show "fst (u_detectPdf e tok opts) = Inr (Some PDF_TYPE)"
    using l by (simp add: u_detectPdf_started [OF s0])
next
  assume a: "scanRun e tok opts = Some (ex, n)"
  then obtain st0 st' where s0: "scanStart tok opts = Some st0"
    and l: "scanLoop e (ctxOf opts) (maxScanLinesOf opts) 0 st0 = (ex, n, st')"
    by (auto simp: scanRun_def split: option.splits prod.splits)
  from scanLoop_exit_count [OF _ l] have
    c: "(ex = BudgetExhausted \<and> n = maxScanLinesOf opts + 1) \<or> (ex \<noteq> BudgetExhausted \<and> n \<le> maxScanLinesOf opts)"
    by simp
  have "ex = BudgetExhausted \<Longrightarrow> fst (u_detectPdf e tok opts) = Inr (Some PDF_TYPE)"
    using l by (simp add: u_detectPdf_started [OF s0])
  with c show "(ex = BudgetExhausted \<and> n = maxScanLinesOf opts + 1
             \<and> fst (u_detectPdf e tok opts) = Inr (Some PDF_TYPE))
          \<or> (ex \<noteq> BudgetExhausted \<and> n \<le> maxScanLinesOf opts)" by blast
qed


text \<open>The signature line followed by \<open>n\<close> object-start lines.\<close>

definition object_start_file :: "nat \<Rightarrow> tokenizer" where
  "object_start_file n =
     \<lparr>data = unlines [CHR 0x0A] (''%PDF-1.4'' # replicate n ''1 0 obj''), position = 0\<rparr>"

theorem budget_ends_the_scan_witness:
  "OBJ_REGEX_exec ''1 0 obj'' = Some (''1'', ''0'')
   \<and> maxScanLinesOf default_options = 50000
   \<and> scanRun example_env (object_start_file 50001) default_options = Some (BudgetExhausted, 50001)
   \<and> fst (detect example_env (object_start_file 50001)) = Inr (Some PDF_TYPE)
   \<and> scanRun example_env (object_start_file 5) \<lparr>opts_debug = None, opts_maxScanLines = Some 3\<rparr>
       = Some (BudgetExhausted, 4)
   \<and> fst (u_detectPdf example_env (object_start_file 5) \<lparr>opts_debug = None, opts_maxScanLines = Some 3\<rparr>)
       = Inr (Some PDF_TYPE)
   \<and> scanRun example_env (object_start_file 1) default_options = Some (Broke, 3)"
proof -
  let ?lf = "[CHR 0x0A]"
  let ?small = "\<lparr>opts_debug = None, opts_maxScanLines = Some 3\<rparr>"
  have o: "OBJ_REGEX_exec ''1 0 obj'' = Some (''1'', ''0'')" by (simp add: string_eval)
  have m: "maxScanLinesOf default_options = 50000"
    by (simp add: maxScanLinesOf_def default_options_def)
  have r: "remaining (object_start_file n)
             = [] @ unlines ?lf (''%PDF-1.4'' # replicate n ''1 0 obj'') @ []" for n
    by (simp add: object_start_file_def remaining_def)
  have p: "length ([] :: byte list) + 5 \<le> 1024" "\<not> sublist ''%PDF-'' ([] @ ''%PDF'')"
    by (simp_all add: sublist_code)
  have h: "''%PDF-1.4'' # replicate n ''1 0 obj'' \<noteq> []"
    "prefix ''%PDF-'' (hd (''%PDF-1.4'' # replicate n ''1 0 obj''))" for n
    by simp_all
  have e: "lineEnd ?lf" by (simp add: lineEnd_def)
  have t: "\<forall>l \<in> set (''%PDF-1.4'' # replicate n ''1 0 obj''). textLine l \<and> \<not> sublist ''<<'' l" for n
    by (auto simp: textLine_def sublist_code)
  have b: "maxScanLinesOf default_options \<le> length (''%PDF-1.4'' # replicate 50001 ''1 0 obj'')"
    unfolding m by (simp only: length_Cons length_replicate)
  have big: "scanRun example_env (object_start_file 50001) default_options
               = Some (BudgetExhausted, maxScanLinesOf default_options + 1)
             \<and> fst (u_detectPdf example_env (object_start_file 50001) default_options) = Inr (Some PDF_TYPE)"
    by (rule budget_ends_the_scan
               [where tok = "object_start_file 50001" and opts = default_options and e = example_env
                  and pre = "[]" and eol = ?lf and ls = "''%PDF-1.4'' # replicate 50001 ''1 0 obj''"
                  and rest = "[]",
                THEN conjunct1, THEN mp,
                OF conjI [OF r conjI [OF p(1) conjI [OF p(2) conjI [OF h(1) conjI [OF h(2)
                   conjI [OF e conjI [OF t b]]]]]]]])
  have five: "replicate 5 x = [x, x, x, x, x]" for x :: string by (simp add: numeral_eq_Suc)
  have s: "scanRun example_env (object_start_file 5) ?small = Some (BudgetExhausted, 4)"
    by (simp add: object_start_file_def five unlines_def eval_simps cong: let_weak_cong split del: if_split)
  have small: "fst (u_detectPdf example_env (object_start_file 5) ?small) = Inr (Some PDF_TYPE)"
    using budget_ends_the_scan
            [where tok = "object_start_file 5" and opts = ?small and e = example_env
               and ex = BudgetExhausted and n = 4, THEN conjunct2] s
    by simp
  have one: "scanRun example_env (object_start_file 1) default_options = Some (Broke, 3)"
    by (simp add: object_start_file_def unlines_def eval_simps cong: let_weak_cong split del: if_split)
  from big have b1: "scanRun example_env (object_start_file 50001) default_options = Some (BudgetExhausted, 50001)"
    and b2: "fst (detect example_env (object_start_file 50001)) = Inr (Some PDF_TYPE)"
    unfolding m by (simp_all add: detect_def)
  from o m b1 b2 s small one show ?thesis by (intro conjI)
qed


end
